theory Spec2Isabelle
  imports Main "HOL-Library.Signed_Division"
begin

section \<open>The board and its two primitives\<close>

text \<open>
  The puzzle is a C array \<open>int puzzle[M*N]\<close>, row-major, with the blank stored as \<open>-1\<close>.
  It is modelled as a list of integers; \<open>M\<close> and \<open>N\<close> are the C \<open>int\<close> parameters that
  every function receives next to the array.  C's \<open>/\<close> and \<open>%\<close> truncate towards zero and
  are written \<open>sdiv\<close> and \<open>smod\<close>.  Sizes stay far below \<open>2^31\<close> (the array has to exist),
  so the integers are unbounded.
\<close>

type_synonym board = "int list"

datatype error = NotFound | OutOfBounds | OutOfRange

text \<open>Reading \<open>puzzle[k]\<close>: an index outside the array is undefined behaviour in C and
  is the error \<open>OutOfRange\<close> here.\<close>

definition rd :: "board \<Rightarrow> int \<Rightarrow> error + int" where
  "rd puzzle k = (if 0 \<le> k \<and> k < int (length puzzle) then Inr (puzzle ! nat k) else Inl OutOfRange)"

definition swap_cells :: "board \<Rightarrow> nat \<Rightarrow> nat \<Rightarrow> board" where
  "swap_cells puzzle a b = puzzle[a := puzzle ! b, b := puzzle ! a]"

fun scan :: "int \<Rightarrow> board \<Rightarrow> int \<Rightarrow> error + int" where
  "scan v [] k = Inl NotFound"
| "scan v (x # xs) k = (if x = v then Inr k else scan v xs (k + 1))"

text \<open>Modelled from the spec: \<open>find\<close> is declared in \<open>my_function.h\<close>, which is not part
  of the sources.  The spec's \<open>locate(value)\<close>: a linear scan over the \<open>M*N\<close> cells that
  returns the cell index and fails with \<open>NotFound\<close> only if the value is absent.\<close>

definition find_val :: "int \<Rightarrow> int \<Rightarrow> board \<Rightarrow> int \<Rightarrow> error + int" where
  "find_val M N puzzle v = scan v (take (nat (M * N)) puzzle) 0"

text \<open>Modelled from the spec: \<open>change\<close> is declared in \<open>my_function.h\<close>, which is not part
  of the sources.  The spec's primitive \<open>move(direction)\<close>: with the blank at row \<open>r\<close>,
  column \<open>c\<close>, UP requires \<open>r > 0\<close> and swaps the blank with \<open>(r-1, c)\<close>, DOWN requires
  \<open>r < M-1\<close> and swaps with \<open>(r+1, c)\<close>, LEFT and RIGHT likewise on columns; it fails with
  \<open>OutOfBounds\<close> if the precondition is violated.  The callers fix the letters:
  \<open>W\<close> is UP, \<open>S\<close> is DOWN, \<open>A\<close> is LEFT, \<open>D\<close> is RIGHT (see \<open>move_h\<close> and \<open>move_v\<close>).
  The move log only holds these four symbols; any other symbol is refused.\<close>

definition change :: "int \<Rightarrow> int \<Rightarrow> board \<Rightarrow> char \<Rightarrow> error + board" where
  "change M N puzzle c =
     (case find_val M N puzzle (- 1) of
        Inl e \<Rightarrow> Inl e
      | Inr b \<Rightarrow>
          (let r = b sdiv N; col = b smod N in
           if c = CHR ''W'' then
             (if 0 < r then Inr (swap_cells puzzle (nat b) (nat (b - N))) else Inl OutOfBounds)
           else if c = CHR ''S'' then
             (if r < M - 1 then Inr (swap_cells puzzle (nat b) (nat (b + N))) else Inl OutOfBounds)
           else if c = CHR ''A'' then
             (if 0 < col then Inr (swap_cells puzzle (nat b) (nat (b - 1))) else Inl OutOfBounds)
           else if c = CHR ''D'' then
             (if col < N - 1 then Inr (swap_cells puzzle (nat b) (nat (b + 1))) else Inl OutOfBounds)
           else Inl OutOfBounds))"

section \<open>The solvability test of \<open>run.cpp\<close>\<close>

text \<open>A \<open>for\<close> loop over an index list that threads an accumulator and stops at the
  first error.\<close>

fun for_each :: "('a \<Rightarrow> nat \<Rightarrow> error + 'a) \<Rightarrow> nat list \<Rightarrow> 'a \<Rightarrow> error + 'a" where
  "for_each f [] a = Inr a"
| "for_each f (k # ks) a = (case f a k of Inl e \<Rightarrow> Inl e | Inr a' \<Rightarrow> for_each f ks a')"

text \<open>C's \<open>num = !num\<close> on an \<open>int\<close>.\<close>

definition lnot :: "int \<Rightarrow> int" where
  "lnot num = (if num = 0 then 1 else 0)"

text \<open>The body of the inner loop of \<open>sum_of_reverse_number\<close>; \<open>||\<close> short-circuits, so
  \<open>puzzle[j]\<close> is only read when \<open>puzzle[i]\<close> is not the blank.\<close>

definition pair_step :: "board \<Rightarrow> nat \<Rightarrow> int \<Rightarrow> nat \<Rightarrow> error + int" where
  "pair_step puzzle i num j =
     (case rd puzzle (int i) of
        Inl e \<Rightarrow> Inl e
      | Inr a \<Rightarrow>
          if a = - 1 then Inr num
          else (case rd puzzle (int j) of
                  Inl e \<Rightarrow> Inl e
                | Inr b \<Rightarrow> if b = - 1 then Inr num else if a > b then Inr (lnot num) else Inr num))"

definition sum_of_reverse_number :: "int \<Rightarrow> int \<Rightarrow> board \<Rightarrow> error + bool" where
  "sum_of_reverse_number M N puzzle =
     (case for_each (\<lambda>num i. for_each (pair_step puzzle i) [i + 1 ..< nat (M * N)] num)
             [0 ..< nat (M * N)] 0 of
        Inl e \<Rightarrow> Inl e
      | Inr num \<Rightarrow> Inr (num \<noteq> 0))"

definition can_solve :: "int \<Rightarrow> int \<Rightarrow> board \<Rightarrow> error + bool" where
  "can_solve M N puzzle =
     (case sum_of_reverse_number M N puzzle of
        Inl e \<Rightarrow> Inl e
      | Inr b \<Rightarrow>
          (let num = (if b then 1 else 0 :: int) in
           if N smod 2 = 1 then Inr (num smod 2 = 0)
           else (case find_val M N puzzle (- 1) of
                   Inl e \<Rightarrow> Inl e
                 | Inr pos \<Rightarrow>
                     (let row = pos sdiv N; move = (M - 1) - row
                      in Inr ((num + move) smod 2 = 0)))))"

section \<open>What the specification counts\<close>

text \<open>The permutation invariant of the data model: the array has \<open>M*N\<close> cells, every value
  \<open>1 .. M*N-1\<close> occurs exactly once and so does the blank.\<close>

definition perm_invariant :: "int \<Rightarrow> int \<Rightarrow> board \<Rightarrow> bool" where
  "perm_invariant M N puzzle \<longleftrightarrow>
     length puzzle = nat (M * N) \<and> distinct puzzle \<and> set puzzle = set (- 1 # [1 .. M * N - 1])"

text \<open>The number of inversions: pairs of an earlier and a later cell, both not blank,
  with the earlier value greater than the later one.\<close>

definition inv_with :: "int \<Rightarrow> board \<Rightarrow> nat" where
  "inv_with x ys = length (filter (\<lambda>y. x \<noteq> - 1 \<and> y \<noteq> - 1 \<and> x > y) ys)"

fun inversions :: "board \<Rightarrow> nat" where
  "inversions [] = 0"
| "inversions (x # xs) = inv_with x xs + inversions xs"

text \<open>The cell index of the blank and its row.\<close>

definition blank_pos :: "board \<Rightarrow> nat" where
  "blank_pos puzzle = length (takeWhile (\<lambda>x. x \<noteq> - 1) puzzle)"

definition blank_row :: "int \<Rightarrow> board \<Rightarrow> int" where
  "blank_row N puzzle = int (blank_pos puzzle) div N"

section \<open>Facts about the primitives\<close>

lemma rd_in_range: "k < length puzzle \<Longrightarrow> rd puzzle (int k) = Inr (puzzle ! k)"
  by (simp add: rd_def)

lemma scan_found:
  "v \<in> set xs \<Longrightarrow> scan v xs k = Inr (k + int (length (takeWhile (\<lambda>x. x \<noteq> v) xs)))"
  by (induction xs arbitrary: k) auto

lemma scan_absent: "v \<notin> set xs \<Longrightarrow> scan v xs k = Inl NotFound"
  by (induction xs arbitrary: k) auto

lemma find_blank:
  assumes "length puzzle = nat (M * N)" and "- 1 \<in> set puzzle"
  shows "find_val M N puzzle (- 1) = Inr (int (blank_pos puzzle))"
  using assms by (simp add: find_val_def blank_pos_def scan_found)

lemma blank_pos_less: "- 1 \<in> set puzzle \<Longrightarrow> blank_pos puzzle < length puzzle"
  unfolding blank_pos_def by (induction puzzle) auto

lemma blank_pos_nth: "- 1 \<in> set puzzle \<Longrightarrow> puzzle ! blank_pos puzzle = - 1"
  unfolding blank_pos_def by (induction puzzle) auto

section \<open>The toggle computes the parity of the inversion count\<close>

lemma lnot_funpow: "(lnot ^^ k) 0 = (if odd k then 1 else 0)"
  by (induction k) (auto simp: lnot_def)

lemma inner_loop:
  assumes "i < length puzzle" and "j0 \<le> length puzzle"
  shows "for_each (pair_step puzzle i) [j0 ..< length puzzle] num
         = Inr ((lnot ^^ inv_with (puzzle ! i) (drop j0 puzzle)) num)"
  using assms(2)
proof (induction "length puzzle - j0" arbitrary: j0 num)
  case 0
  then show ?case by (simp add: inv_with_def)
next
  case (Suc d)
  then have lt: "j0 < length puzzle" by linarith
  have d: "d = length puzzle - Suc j0" using Suc.hyps(2) by linarith
  have dr: "drop j0 puzzle = puzzle ! j0 # drop (Suc j0) puzzle"
    using lt by (simp add: Cons_nth_drop_Suc)
  have ih: "for_each (pair_step puzzle i) [Suc j0 ..< length puzzle] n
            = Inr ((lnot ^^ inv_with (puzzle ! i) (drop (Suc j0) puzzle)) n)" for n
    using Suc.hyps(1) [OF d] lt by simp
  show ?case
    using lt assms(1)
    by (simp add: upt_conv_Cons pair_step_def rd_in_range dr ih inv_with_def funpow_swap1)
qed

lemma outer_loop:
  assumes "i0 \<le> length puzzle"
  shows "for_each (\<lambda>num i. for_each (pair_step puzzle i) [i + 1 ..< length puzzle] num)
           [i0 ..< length puzzle] num
         = Inr ((lnot ^^ inversions (drop i0 puzzle)) num)"
  using assms
proof (induction "length puzzle - i0" arbitrary: i0 num)
  case 0
  then show ?case by simp
next
  case (Suc d)
  then have lt: "i0 < length puzzle" by linarith
  have d: "d = length puzzle - Suc i0" using Suc.hyps(2) by linarith
  have dr: "drop i0 puzzle = puzzle ! i0 # drop (Suc i0) puzzle"
    using lt by (simp add: Cons_nth_drop_Suc)
  have ih: "for_each (\<lambda>num i. for_each (pair_step puzzle i) [Suc i ..< length puzzle] num)
              [Suc i0 ..< length puzzle] n
            = Inr ((lnot ^^ inversions (drop (Suc i0) puzzle)) n)" for n
    using Suc.hyps(1) [OF d] lt by simp
  have "Suc i0 \<le> length puzzle" using lt by simp
  then show ?case
    using lt by (simp add: upt_conv_Cons dr ih inner_loop funpow_add add.commute)
qed

lemma sum_of_reverse_number_parity:
  assumes "length puzzle = nat (M * N)"
  shows "sum_of_reverse_number M N puzzle = Inr (odd (inversions puzzle))"
  using outer_loop [of 0 puzzle 0] assms
  by (simp add: sum_of_reverse_number_def lnot_funpow)

section \<open>C arithmetic on the values that occur\<close>

lemma smod2_zero: "(x::int) smod 2 = 0 \<longleftrightarrow> even x"
  by (auto simp: smod_int_alt_def sgn_if)

lemma smod2_one: "0 \<le> x \<Longrightarrow> (x::int) smod 2 = 1 \<longleftrightarrow> odd x"
  by (auto simp: smod_int_alt_def sgn_if odd_iff_mod_2_eq_one)

lemma sdiv_nonneg: "0 \<le> a \<Longrightarrow> 0 < b \<Longrightarrow> (a::int) sdiv b = a div b"
  by (auto simp: signed_divide_int_def sgn_if)

lemma smod_nonneg: "0 \<le> a \<Longrightarrow> 0 < b \<Longrightarrow> (a::int) smod b = a mod b"
  by (auto simp: smod_int_alt_def sgn_if)

section \<open>The solvability test: results\<close>

text \<open>
  Claim C10.  On every array of \<open>M*N\<close> cells \<open>sum_of_reverse_number\<close> returns true exactly
  when the number of inversions among the non-blank cells is odd: toggling a flag once per
  inversion is the same as counting the inversions and reducing the count modulo 2.  So the
  variable \<open>num\<close> of \<open>can_solve\<close> is 0 or 1, and its two tests give the same answer as the
  same tests made on the full inversion count.
\<close>

theorem toggle_refines_count:
  assumes "length puzzle = nat (M * N)"
  shows "sum_of_reverse_number M N puzzle = Inr (inversions puzzle mod 2 = 1) \<and>
         can_solve M N puzzle =
           (if N smod 2 = 1 then Inr (int (inversions puzzle) smod 2 = 0)
            else (case find_val M N puzzle (- 1) of
                    Inl e \<Rightarrow> Inl e
                  | Inr pos \<Rightarrow>
                      Inr ((int (inversions puzzle) + ((M - 1) - pos sdiv N)) smod 2 = 0)))"
  using assms
  by (auto simp: can_solve_def sum_of_reverse_number_parity smod2_zero odd_iff_mod_2_eq_one
           split: sum.splits)

theorem toggle_refines_count_witness:
  "length [3, 1, 2, - 1 :: int] = nat (2 * 2) \<and>
   sum_of_reverse_number 2 2 [3, 1, 2, - 1] = Inr (inversions [3, 1, 2, - 1] mod 2 = 1) \<and>
   can_solve 2 2 [3, 1, 2, - 1] = Inr True"
  using toggle_refines_count [of "[3, 1, 2, - 1]" 2 2]
  by (simp add: find_val_def inv_with_def)

text \<open>
  Claim C2.  On every \<open>M\<times>N\<close> board that satisfies the permutation invariant, \<open>can_solve\<close>
  returns the value of the closed-form rule: for odd \<open>N\<close> the inversion count is even; for
  even \<open>N\<close> the inversion count plus \<open>M - 1 - blank_row\<close> is even.
\<close>

theorem can_solve_closed_form:
  assumes "perm_invariant M N puzzle" and "0 < M" and "0 < N"
  shows "can_solve M N puzzle =
           Inr (if odd N then even (inversions puzzle)
                else even (int (inversions puzzle) + (M - 1 - blank_row N puzzle)))"
proof -
  have len: "length puzzle = nat (M * N)" and bl: "- 1 \<in> set puzzle"
    using assms(1) by (simp_all add: perm_invariant_def)
  show ?thesis
    using assms(3)
    by (simp add: can_solve_def sum_of_reverse_number_parity [OF len] find_blank [OF len bl]
          smod2_zero smod2_one blank_row_def sdiv_nonneg)
qed

theorem can_solve_closed_form_witness:
  "perm_invariant 2 3 [2, 4, - 1, 1, 5, 3] \<and> (0::int) < 2 \<and> (0::int) < 3 \<and>
   can_solve 2 3 [2, 4, - 1, 1, 5, 3] = Inr True \<and> inversions [2, 4, - 1, 1, 5, 3] = 4"
proof -
  have pi: "perm_invariant 2 3 [2, 4, - 1, 1, 5, 3]"
    by (auto simp: perm_invariant_def upto.simps)
  show ?thesis
    using pi can_solve_closed_form [OF pi] by (simp add: inv_with_def)
qed

section \<open>The repair routine of \<open>run.cpp\<close>\<close>

text \<open>The \<open>for\<close> loop of \<open>reshuffle\<close>: it swaps the first two neighbouring cells (in
  array order) that are both not blank and breaks.  \<open>&&\<close> short-circuits, so
  \<open>puzzle[i+1]\<close> is only read when \<open>puzzle[i]\<close> is not the blank.\<close>

fun swap_first :: "board \<Rightarrow> nat list \<Rightarrow> error + board" where
  "swap_first puzzle [] = Inr puzzle"
| "swap_first puzzle (i # rest) =
     (case rd puzzle (int i) of
        Inl e \<Rightarrow> Inl e
      | Inr a \<Rightarrow>
          if a \<noteq> - 1 then
            (case rd puzzle (int i + 1) of
               Inl e \<Rightarrow> Inl e
             | Inr b \<Rightarrow> if b \<noteq> - 1 then Inr (swap_cells puzzle i (i + 1))
                        else swap_first puzzle rest)
          else swap_first puzzle rest)"

text \<open>The loop \<open>while (!mark)\<close>.  It may run forever, so it gets fuel: the largest
  number of iterations it may make; \<open>None\<close> means that this number was not enough.\<close>

fun reshuffle_loop :: "nat \<Rightarrow> int \<Rightarrow> int \<Rightarrow> board \<Rightarrow> bool \<Rightarrow> (error + board) option" where
  "reshuffle_loop fuel M N puzzle mark =
     (if mark then Some (Inr puzzle)
      else (case fuel of
              0 \<Rightarrow> None
            | Suc fuel' \<Rightarrow>
                (case swap_first puzzle [0 ..< nat (M * N)] of
                   Inl e \<Rightarrow> Some (Inl e)
                 | Inr puzzle' \<Rightarrow>
                     (case can_solve M N puzzle' of
                        Inl e \<Rightarrow> Some (Inl e)
                      | Inr mark' \<Rightarrow> reshuffle_loop fuel' M N puzzle' mark'))))"

text \<open>\<open>reshuffle\<close> reads one character.  \<open>None\<close> is a failed read: the source then hands
  over to the interactive reader \<open>read_2\<close> (not part of the sources) and does not touch
  the array itself.\<close>

definition reshuffle :: "nat \<Rightarrow> int \<Rightarrow> int \<Rightarrow> board \<Rightarrow> bool \<Rightarrow> char option \<Rightarrow> (error + board) option" where
  "reshuffle fuel M N puzzle mark input =
     (case input of
        None \<Rightarrow> Some (Inr puzzle)
      | Some c \<Rightarrow>
          if c = CHR ''y'' \<or> c = CHR ''Y'' then reshuffle_loop fuel M N puzzle mark
          else Some (Inr puzzle))"

lemma can_solve_formula:
  assumes len: "length puzzle = nat (M * N)" and bl: "- 1 \<in> set puzzle" and "0 < N"
  shows "can_solve M N puzzle =
           Inr (if odd N then even (inversions puzzle)
                else even (int (inversions puzzle) + (M - 1 - blank_row N puzzle)))"
  using assms(3)
  by (simp add: can_solve_def sum_of_reverse_number_parity [OF len] find_blank [OF len bl]
        smod2_zero smod2_one blank_row_def sdiv_nonneg)

lemma inv_with_swap: "inv_with x (b # a # ys) = inv_with x (a # b # ys)"
  by (simp add: inv_with_def)

lemma inversions_adjacent_swap:
  assumes "a \<noteq> b" "a \<noteq> - 1" "b \<noteq> - 1"
  shows "even (inversions (xs @ b # a # ys)) \<longleftrightarrow> odd (inversions (xs @ a # b # ys))"
  using assms
proof (induction xs)
  case Nil
  then show ?case by (auto simp: inv_with_def)
next
  case (Cons x xs)
  have "inv_with x (xs @ b # a # ys) = inv_with x (xs @ a # b # ys)"
    by (simp add: inv_with_def)
  with Cons show ?case by simp
qed

lemma blank_pos_adjacent_swap:
  assumes "a \<noteq> - 1" "b \<noteq> - 1"
  shows "blank_pos (xs @ b # a # ys) = blank_pos (xs @ a # b # ys)"
  using assms by (auto simp: blank_pos_def takeWhile_append)

lemma split_adjacent:
  assumes "Suc i < length puzzle"
  shows "puzzle = take i puzzle @ puzzle ! i # puzzle ! Suc i # drop (Suc (Suc i)) puzzle"
  using assms by (metis Cons_nth_drop_Suc Suc_lessD append_take_drop_id)

lemma swap_cells_adjacent:
  assumes "Suc i < length puzzle"
  shows "swap_cells puzzle i (Suc i)
         = take i puzzle @ puzzle ! Suc i # puzzle ! i # drop (Suc (Suc i)) puzzle"
  using assms
  apply (auto simp: swap_cells_def list_eq_iff_nth_eq nth_append nth_list_update nth_Cons'
        min_def)
  apply (rule arg_cong [where f = "(!) puzzle"])
  apply arith
  done

lemma can_solve_adjacent_swap:
  assumes len: "length puzzle = nat (M * N)" and bl: "- 1 \<in> set puzzle" and N: "0 < N"
    and i: "Suc i < length puzzle"
    and ne: "puzzle ! i \<noteq> puzzle ! Suc i" "puzzle ! i \<noteq> - 1" "puzzle ! Suc i \<noteq> - 1"
    and cs: "can_solve M N puzzle = Inr v"
  shows "can_solve M N (swap_cells puzzle i (Suc i)) = Inr (\<not> v)"
proof -
  let ?xs = "take i puzzle" and ?ys = "drop (Suc (Suc i)) puzzle"
  let ?a = "puzzle ! i" and ?b = "puzzle ! Suc i"
  let ?q = "?xs @ ?b # ?a # ?ys"
  have p: "puzzle = ?xs @ ?a # ?b # ?ys" by (rule split_adjacent [OF i])
  have q: "swap_cells puzzle i (Suc i) = ?q" by (rule swap_cells_adjacent [OF i])
  have lenq: "length ?q = nat (M * N)" using len i by simp
  have "set ?q = set (?xs @ ?a # ?b # ?ys)" by auto
  then have blq: "- 1 \<in> set ?q" using bl p by metis
  have inv: "even (inversions ?q) \<longleftrightarrow> odd (inversions puzzle)"
    using inversions_adjacent_swap [OF ne, of ?xs ?ys] p by metis
  have bp: "blank_pos ?q = blank_pos puzzle"
    using blank_pos_adjacent_swap [OF ne(2,3), of ?xs ?ys] p by metis
  have v: "v = (if odd N then even (inversions puzzle)
                else even (int (inversions puzzle) + (M - 1 - blank_row N puzzle)))"
    using cs can_solve_formula [OF len bl N] by simp
  show ?thesis
    unfolding q can_solve_formula [OF lenq blq N] v
    using inv by (auto simp add: blank_row_def bp)
qed


lemma first_pair:
  assumes len: "4 \<le> length puzzle" and d: "distinct puzzle"
  shows "\<exists>i. Suc i < length puzzle \<and> puzzle ! i \<noteq> - 1 \<and> puzzle ! Suc i \<noteq> - 1 \<and>
             (\<forall>k<i. puzzle ! k = - 1 \<or> puzzle ! Suc k = - 1) \<and>
             swap_first puzzle [0 ..< length puzzle] = Inr (swap_cells puzzle i (Suc i))"
proof -
  have l3: "Suc (Suc (Suc 0)) < length puzzle" using len by simp
  have idx: "[0 ..< length puzzle]
             = 0 # Suc 0 # Suc (Suc 0) # [Suc (Suc (Suc 0)) ..< length puzzle]"
  proof -
    have "[0 ..< length puzzle] = 0 # [Suc 0 ..< length puzzle]"
      by (rule upt_conv_Cons) (use l3 in linarith)
    also have "[Suc 0 ..< length puzzle] = Suc 0 # [Suc (Suc 0) ..< length puzzle]"
      by (rule upt_conv_Cons) (use l3 in linarith)
    also have "[Suc (Suc 0) ..< length puzzle]
               = Suc (Suc 0) # [Suc (Suc (Suc 0)) ..< length puzzle]"
      by (rule upt_conv_Cons) (use l3 in linarith)
    finally show ?thesis .
  qed
  have l0: "0 < length puzzle" and l1: "Suc 0 < length puzzle"
    and l2: "Suc (Suc 0) < length puzzle"
    using l3 by linarith+
  have ne: "puzzle ! a \<noteq> puzzle ! b" if "a < length puzzle" "b < length puzzle" "a \<noteq> b" for a b
    using that d by (simp add: nth_eq_iff_index_eq)
  have r: "rd puzzle (int k) = Inr (puzzle ! k)" "rd puzzle (int k + 1) = Inr (puzzle ! Suc k)"
    if "Suc k < length puzzle" for k
    using that rd_in_range [of k puzzle] rd_in_range [of "Suc k" puzzle]
    by (simp_all add: add.commute)
  consider (a) "puzzle ! 0 \<noteq> - 1" "puzzle ! Suc 0 \<noteq> - 1"
    | (b) "puzzle ! 0 = - 1" | (c) "puzzle ! 0 \<noteq> - 1" "puzzle ! Suc 0 = - 1"
    by blast
  then show ?thesis
  proof cases
    case a
    have "swap_first puzzle [0 ..< length puzzle] = Inr (swap_cells puzzle 0 (Suc 0))"
      unfolding idx using a r [OF l1] by simp
    then show ?thesis using a l1 by (intro exI [of _ 0]) simp
  next
    case b
    have 1: "puzzle ! Suc 0 \<noteq> - 1" using ne [OF l0 l1] b by auto
    have 2: "puzzle ! Suc (Suc 0) \<noteq> - 1" using ne [OF l0 l2] b by auto
    have "swap_first puzzle [0 ..< length puzzle] = Inr (swap_cells puzzle (Suc 0) (Suc (Suc 0)))"
      unfolding idx using b 1 2 r [OF l1] r [OF l2] by simp
    then show ?thesis using b 1 2 l2 by (intro exI [of _ "Suc 0"]) simp
  next
    case c
    have 2: "puzzle ! Suc (Suc 0) \<noteq> - 1" using ne [OF l1 l2] c by auto
    have 3: "puzzle ! Suc (Suc (Suc 0)) \<noteq> - 1"
      using ne [OF l1 l3] c by auto
    have "swap_first puzzle [0 ..< length puzzle]
          = Inr (swap_cells puzzle (Suc (Suc 0)) (Suc (Suc (Suc 0))))"
      unfolding idx using c 2 3 r [OF l1] r [OF l2] r [OF l3] by simp
    moreover have "\<forall>k<Suc (Suc 0). puzzle ! k = - 1 \<or> puzzle ! Suc k = - 1"
      using c by (auto simp: less_Suc_eq)
    ultimately show ?thesis using 2 3 l3
      by (intro exI [of _ "Suc (Suc 0)"]) simp
  qed
qed

lemma board_size:
  assumes "2 \<le> M" and "2 \<le> N"
  shows "4 \<le> nat (M * N)"
proof -
  have "2 * 2 \<le> M * N" using assms by (intro mult_mono) simp_all
  then show ?thesis by simp
qed

text \<open>
  Claim C4.  On every board (\<open>M, N \<ge> 2\<close>, permutation invariant) on which \<open>can_solve\<close>
  returns false, the loop of the repair routine makes exactly one iteration: no fuel is not
  enough, and one iteration is.  It swaps the first pair of cells with consecutive indices
  that are both not blank; \<open>can_solve\<close> is true afterwards, and the result differs from the
  input by exactly that adjacent transposition.
\<close>

theorem reshuffle_one_swap:
  assumes pi: "perm_invariant M N puzzle" and M: "2 \<le> M" and N: "2 \<le> N"
    and cs: "can_solve M N puzzle = Inr False"
  shows "\<exists>i. Suc i < length puzzle \<and> puzzle ! i \<noteq> - 1 \<and> puzzle ! Suc i \<noteq> - 1 \<and>
             (\<forall>k<i. puzzle ! k = - 1 \<or> puzzle ! Suc k = - 1) \<and>
             can_solve M N (swap_cells puzzle i (Suc i)) = Inr True \<and>
             reshuffle 0 M N puzzle False (Some CHR ''y'') = None \<and>
             (\<forall>fuel. reshuffle (Suc fuel) M N puzzle False (Some CHR ''y'')
                      = Some (Inr (swap_cells puzzle i (Suc i))))"
proof -
  have len: "length puzzle = nat (M * N)" and d: "distinct puzzle" and bl: "- 1 \<in> set puzzle"
    using pi by (simp_all add: perm_invariant_def)
  have len4: "4 \<le> length puzzle" using board_size [OF M N] len by simp
  from first_pair [OF len4 d] obtain i where i: "Suc i < length puzzle"
    and a: "puzzle ! i \<noteq> - 1" and b: "puzzle ! Suc i \<noteq> - 1"
    and least: "\<forall>k<i. puzzle ! k = - 1 \<or> puzzle ! Suc k = - 1"
    and sf: "swap_first puzzle [0 ..< length puzzle] = Inr (swap_cells puzzle i (Suc i))"
    by blast
  have ab: "puzzle ! i \<noteq> puzzle ! Suc i"
    using d i by (simp add: nth_eq_iff_index_eq)
  have N0: "0 < N" using N by simp
  have cs': "can_solve M N (swap_cells puzzle i (Suc i)) = Inr True"
    using can_solve_adjacent_swap [OF len bl N0 i ab a b cs] by simp
  have "reshuffle (Suc fuel) M N puzzle False (Some CHR ''y'')
        = Some (Inr (swap_cells puzzle i (Suc i)))" for fuel
    using sf cs' by (simp add: reshuffle_def len [symmetric])
  moreover have "reshuffle 0 M N puzzle False (Some CHR ''y'') = None"
    by (simp add: reshuffle_def)
  ultimately show ?thesis using i a b least cs' by blast
qed

theorem reshuffle_one_swap_witness:
  "perm_invariant 2 2 [2, 1, 3, - 1] \<and> (2::int) \<le> 2 \<and> can_solve 2 2 [2, 1, 3, - 1] = Inr False \<and>
   (\<exists>i. Suc i < length [2, 1, 3, - 1 :: int] \<and> [2, 1, 3, - 1 :: int] ! i \<noteq> - 1 \<and>
        [2, 1, 3, - 1 :: int] ! Suc i \<noteq> - 1 \<and>
        (\<forall>k<i. [2, 1, 3, - 1 :: int] ! k = - 1 \<or> [2, 1, 3, - 1 :: int] ! Suc k = - 1) \<and>
        can_solve 2 2 (swap_cells [2, 1, 3, - 1] i (Suc i)) = Inr True \<and>
        reshuffle 0 2 2 [2, 1, 3, - 1] False (Some CHR ''y'') = None \<and>
        (\<forall>fuel. reshuffle (Suc fuel) 2 2 [2, 1, 3, - 1] False (Some CHR ''y'')
                 = Some (Inr (swap_cells [2, 1, 3, - 1] i (Suc i)))))"
proof -
  have pi: "perm_invariant 2 2 [2, 1, 3, - 1]"
    by (auto simp: perm_invariant_def upto.simps)
  have cs: "can_solve 2 2 [2, 1, 3, - 1] = Inr False"
    using can_solve_formula [of "[2, 1, 3, - 1]" 2 2]
    by (simp add: inv_with_def blank_row_def blank_pos_def)
  show ?thesis
    using pi cs reshuffle_one_swap [OF pi _ _ cs] by simp
qed

section \<open>The solver of \<open>autoMxN.cpp\<close>: state and control\<close>

text \<open>
  The solver works on the array \<open>puzzle\<close> and the move log \<open>sol\<close> (both passed by reference),
  the global flag \<open>printout\<close> and, inside \<open>autosolve\<close>, the counter \<open>step\<close>.  What it writes
  to the terminal is kept in two fields: \<open>shown\<close>, the boards drawn by \<open>print_puzzle\<close>, and
  \<open>out\<close>, the move letters printed by \<open>autosolve\<close>.  The field \<open>hist\<close> is instrumentation: the
  letters of all moves that \<open>change\<close> has applied to the array, in order.  Clearing the
  screen, banners, the clock and \<open>Sleep\<close> are left out.
\<close>

record state =
  puzzle :: board
  sol :: string
  printout :: bool
  step :: int
  shown :: "board list"
  out :: string
  hist :: string

text \<open>A statement ends normally (\<open>Done\<close>), by a \<open>return\<close> of the enclosing function
  (\<open>Return\<close>), or in a failure (\<open>Fail\<close>, with the state at that moment).  A \<open>while\<close> loop
  gets fuel, the number of iterations it may make; when a loop has used up its fuel and
  would go on, the run is cut off there (\<open>Cut\<close>, with the state at that moment).  A run
  that is cut off for every fuel is a run that never returns, and the states in which it
  is cut off show what it does.\<close>

datatype outcome = Done state | Return state | Fail error state | Cut state

text \<open>A statement maps a state to its outcome.  The statements of the solver have an
  outcome in every state and for every fuel, so the result is always \<open>Some\<close> outcome.\<close>

type_synonym act = "state \<Rightarrow> outcome option"

definition skip :: act where
  "skip s = Some (Done s)"

definition cut :: act where
  "cut s = Some (Cut s)"

definition thn :: "act \<Rightarrow> act \<Rightarrow> act" where
  "thn f g s = (case f s of Some (Done s') \<Rightarrow> g s' | r \<Rightarrow> r)"

fun block :: "act list \<Rightarrow> act" where
  "block [] = skip"
| "block (f # fs) = thn f (block fs)"

definition when_c :: "bool \<Rightarrow> act \<Rightarrow> act" where
  "when_c b f = (if b then f else skip)"

text \<open>\<open>for\<close> loops: a body repeated a known number of times, and a body that uses the
  loop variable.\<close>

primrec times :: "nat \<Rightarrow> act \<Rightarrow> act" where
  "times 0 f = skip"
| "times (Suc n) f = thn f (times n f)"

primrec for_ints :: "int list \<Rightarrow> (int \<Rightarrow> act) \<Rightarrow> act" where
  "for_ints [] f = skip"
| "for_ints (k # ks) f = thn (f k) (for_ints ks f)"

text \<open>Reading \<open>find(M, N, puzzle, v)\<close> and \<open>puzzle[k]\<close> into a local variable.\<close>

definition with_find :: "int \<Rightarrow> int \<Rightarrow> int \<Rightarrow> (int \<Rightarrow> act) \<Rightarrow> act" where
  "with_find M N v k s =
     (case find_val M N (puzzle s) v of Inl e \<Rightarrow> Some (Fail e s) | Inr pos \<Rightarrow> k pos s)"

definition with_rd :: "int \<Rightarrow> (int \<Rightarrow> act) \<Rightarrow> act" where
  "with_rd idx k s = (case rd (puzzle s) idx of Inl e \<Rightarrow> Some (Fail e s) | Inr v \<Rightarrow> k v s)"

text \<open>\<open>if (puzzle[idx] == num) return;\<close> and the end of the function that returns.\<close>

definition ret_if :: "int \<Rightarrow> int \<Rightarrow> act" where
  "ret_if idx num = with_rd idx (\<lambda>v s. if v = num then Some (Return s) else Some (Done s))"

definition returning :: "act \<Rightarrow> act" where
  "returning f s = (case f s of Some (Return s') \<Rightarrow> Some (Done s') | r \<Rightarrow> r)"

section \<open>The solver of \<open>autoMxN.cpp\<close>: the functions\<close>

text \<open>The rendering hook: \<open>if (printout) { ...; print_puzzle(M,N,puzzle); }\<close>.\<close>

definition render :: "state \<Rightarrow> state" where
  "render s = (if printout s then s\<lparr>shown := shown s @ [puzzle s]\<rparr> else s)"

definition auto_change :: "int \<Rightarrow> int \<Rightarrow> char \<Rightarrow> act" where
  "auto_change M N c s =
     (case change M N (puzzle s) c of
        Inl e \<Rightarrow> Some (Fail e s)
      | Inr p \<Rightarrow> Some (Done (render (s\<lparr>puzzle := p, hist := hist s @ [c], sol := sol s @ [c]\<rparr>))))"

definition apply_sym :: "int \<Rightarrow> int \<Rightarrow> char \<Rightarrow> act" where
  "apply_sym M N c s =
     (case change M N (puzzle s) c of
        Inl e \<Rightarrow> Some (Fail e s)
      | Inr p \<Rightarrow> Some (Done (render (s\<lparr>puzzle := p, hist := hist s @ [c]\<rparr>))))"

text \<open>\<open>append\<close>: the whole macro is added to \<open>sol\<close> first, then its moves are applied.\<close>

definition append_sol :: "int \<Rightarrow> int \<Rightarrow> string \<Rightarrow> act" where
  "append_sol M N cs s = block (map (apply_sym M N) cs) (s\<lparr>sol := sol s @ cs\<rparr>)"

definition move_h :: "int \<Rightarrow> int \<Rightarrow> int \<Rightarrow> act" where
  "move_h M N c =
     with_find M N (- 1) (\<lambda>pos.
       let c_b = pos smod N; d = c_b - c in
       if d > 0 then times (nat d) (auto_change M N CHR ''A'')
       else times (nat (- 1 * d)) (auto_change M N CHR ''D''))"

definition move_v :: "int \<Rightarrow> int \<Rightarrow> int \<Rightarrow> act" where
  "move_v M N r =
     with_find M N (- 1) (\<lambda>pos.
       let r_b = pos sdiv N; d = r_b - r in
       if d > 0 then times (nat d) (auto_change M N CHR ''W'')
       else times (nat (- 1 * d)) (auto_change M N CHR ''S''))"

text \<open>\<open>move\<close>: the tile at \<open>(r, c)\<close> is brought to \<open>(i, j)\<close>.  The local \<open>same_c\<close> is true
  exactly when \<open>c = j\<close> once the second part is reached, and \<open>dir\<close> is \<open>c < j\<close> wherever it
  is read.  The last loop tests \<open>puzzle[i*N+j]\<close> with its own loop variable \<open>i\<close>, which
  shadows the parameter.\<close>

definition move :: "int \<Rightarrow> int \<Rightarrow> int \<Rightarrow> int \<Rightarrow> int \<Rightarrow> int \<Rightarrow> act" where
  "move r c i j M N =
     returning (with_rd (r * N + c) (\<lambda>num.
       let placed = ret_if (i * N + j) num; dir = (c < j); same_c = (c = j) in
       block [
         when_c (c \<noteq> j) (block [
           with_find M N (- 1) (\<lambda>pos. when_c (pos sdiv N = i) (auto_change M N CHR ''S'')),
           placed,
           (if dir then move_h M N (c + 1) else move_h M N (c - 1)),
           placed,
           move_v M N r,
           placed,
           (if r \<noteq> M - 1 then
              (if dir then
                 block [auto_change M N CHR ''A'', placed,
                        times (nat (j - c - 1)) (append_sol M N ''SDDWA'')]
               else
                 block [auto_change M N CHR ''D'', placed,
                        times (nat (c - j - 1)) (append_sol M N ''SAAWD'')])
            else
              (if dir then
                 block [auto_change M N CHR ''A'', placed,
                        times (nat (j - c - 1)) (append_sol M N ''WDDSA'')]
               else
                 block [auto_change M N CHR ''D'', placed,
                        times (nat (c - j - 1)) (append_sol M N ''WAASD'')]))]),
         when_c (r \<noteq> i) (block [
           (if same_c then
              (if r \<noteq> i + 1 then
                 block [move_v M N (r - 1), placed, move_h M N c, placed]
               else
                 block [move_v M N (r + 1), placed, move_h M N (c + 1), placed,
                        move_v M N (r - 1), placed, move_h M N c, placed])
            else if dir then
              block [
                (if r \<noteq> M - 1 then block [append_sol M N ''SDDWWA'', placed]
                 else block [auto_change M N CHR ''W'', placed,
                             auto_change M N CHR ''D'', placed]),
                auto_change M N CHR ''S'', placed]
            else
              block [auto_change M N CHR ''W'', placed, auto_change M N CHR ''A'', placed]),
           auto_change M N CHR ''S'',
           for_ints [2 .. r - i] (\<lambda>i'.
             block [append_sol M N ''DWWAS'', ret_if (i' * N + j) num])])]))"

text \<open>\<open>solve_1x2\<close>, in the order of the source: (a) lines 169--195, the tile \<open>i*N+N\<close> is
  taken out of the rows above \<open>i+2\<close>; (b) lines 199--247, the tile \<open>i*N+N-1\<close> goes to
  \<open>(i+1, N-1)\<close>, where \<open>r[1]\<close> is read again after the first shift and \<open>same_c\<close> records
  which branch ran; (c) lines 251--318, the tile \<open>i*N+N\<close> goes below it; (d) lines
  320--323, the closing macro.\<close>

definition solve_1x2_a :: "int \<Rightarrow> int \<Rightarrow> int \<Rightarrow> act" where
  "solve_1x2_a M N i =
     block [
       with_find M N (- 1) (\<lambda>pos. when_c (pos sdiv N = i) (auto_change M N CHR ''S'')),
       with_find M N (i * N + N) (\<lambda>pos.
         let r2 = pos sdiv N; c2 = pos smod N in
         when_c (r2 < i + 2) (block [
           move_v M N (i + 2), move_h M N c2, move_v M N (r2 + 1),
           auto_change M N CHR ''W'',
           (if c2 \<noteq> N - 1 then times (nat (i + 2 - r2 - 1)) (append_sol M N ''DSSAW'')
            else times (nat (i + 2 - r2 - 1)) (append_sol M N ''ASSDW''))]))]"

definition solve_1x2_lift :: "int \<Rightarrow> int \<Rightarrow> int \<Rightarrow> int \<Rightarrow> bool \<Rightarrow> act" where
  "solve_1x2_lift M N i r1 same_c =
     when_c (r1 \<noteq> i + 1) (block [
       when_c same_c (block [move_h M N (N - 1), move_v M N r1]),
       (if r1 = i then append_sol M N ''SDWAS''
        else block [
          auto_change M N CHR ''W'', auto_change M N CHR ''D'', auto_change M N CHR ''S'',
          times (nat (r1 - (i + 1) - 1)) (append_sol M N ''AWWDS'')])])"

definition solve_1x2_b :: "int \<Rightarrow> int \<Rightarrow> int \<Rightarrow> act" where
  "solve_1x2_b M N i =
     with_find M N (i * N + N - 1) (\<lambda>pos.
       let r1 = pos sdiv N; c1 = pos smod N in
       with_find M N (- 1) (\<lambda>posb.
         let r_b = posb sdiv N in
         block [
           when_c (r1 = r_b) (auto_change M N CHR ''S''),
           (if c1 \<noteq> N - 1 then
              block [
                move_h M N (c1 + 1), move_v M N r1, auto_change M N CHR ''A'',
                with_find M N (i * N + N - 1) (\<lambda>pos'.
                  let r1' = pos' sdiv N; c1' = pos' smod N; d = N - 1 - c1' in
                  block [
                    times (nat d)
                      (if r1' \<noteq> M - 1 then append_sol M N ''SDDWA''
                       else append_sol M N ''WDDSA''),
                    solve_1x2_lift M N i r1' False])]
            else solve_1x2_lift M N i r1 True)]))"

definition solve_1x2_c :: "int \<Rightarrow> int \<Rightarrow> int \<Rightarrow> act" where
  "solve_1x2_c M N i =
     with_find M N (i * N + N) (\<lambda>temp.
       let r2 = temp sdiv N; c2 = temp smod N; same_c = (c2 = N - 1) in
       if r2 = i \<and> c2 = N - 1 then
         block [move_h M N (N - 2), move_v M N i, append_sol M N ''DSAWDSSAWWDSSAWDSA'']
       else
         with_find M N (- 1) (\<lambda>posb.
           let r_b = posb sdiv N in
           block [
             when_c (c2 \<noteq> N - 1) (block [
               when_c (r2 = r_b) (auto_change M N CHR ''S''),
               (if c2 \<noteq> N - 2 then block [move_h M N (c2 + 1), move_v M N r2]
                else if r2 \<noteq> i + 2 then
                  block [move_v M N (r2 - 1), move_h M N (c2 + 1), move_v M N r2]
                else
                  block [move_h M N (c2 - 1), move_v M N (r2 + 1), move_h M N (c2 + 1),
                         move_v M N r2]),
               auto_change M N CHR ''A'',
               times (nat (N - 1 - c2 - 1))
                 (if r2 \<noteq> M - 1 then append_sol M N ''SDDWA'' else append_sol M N ''WDDSA'')]),
             when_c (r2 \<noteq> i + 2) (block [
               when_c same_c (block [move_h M N (N - 2), move_v M N r2]),
               auto_change M N CHR ''W'', auto_change M N CHR ''D'', auto_change M N CHR ''S'',
               times (nat (r2 - (i + 2) - 1)) (append_sol M N ''AWWDS'')])]))"

definition solve_1x2_d :: "int \<Rightarrow> int \<Rightarrow> int \<Rightarrow> act" where
  "solve_1x2_d M N i = block [move_h M N (N - 2), move_v M N i, append_sol M N ''DSSAWWDS'']"

definition solve_1x2 :: "int \<Rightarrow> int \<Rightarrow> int \<Rightarrow> act" where
  "solve_1x2 M N i = block [solve_1x2_a M N i, solve_1x2_b M N i, solve_1x2_c M N i, solve_1x2_d M N i]"

text \<open>The loops \<open>while (c1 != i) { append(...); c1--; }\<close> of \<open>solve_2x1\<close>.\<close>

primrec slide_left :: "nat \<Rightarrow> int \<Rightarrow> int \<Rightarrow> int \<Rightarrow> int \<Rightarrow> act" where
  "slide_left 0 M N c1 i = (if c1 \<noteq> i then cut else skip)"
| "slide_left (Suc fuel) M N c1 i =
     (if c1 \<noteq> i then thn (append_sol M N ''WAASD'') (slide_left fuel M N (c1 - 1) i) else skip)"

text \<open>The body of the loop of \<open>solve_2x1\<close> for column \<open>i\<close>: the tile of \<open>(M-2, i)\<close>
  is brought to \<open>(M-1, i)\<close>, the tile of \<open>(M-1, i)\<close> next to it, and both are turned in.\<close>

definition solve_2x1_first :: "nat \<Rightarrow> int \<Rightarrow> int \<Rightarrow> int \<Rightarrow> act" where
  "solve_2x1_first fuel M N i =
     with_find M N ((M - 2) * N + i + 1) (\<lambda>pos1.
       let r1 = pos1 sdiv N; c1 = pos1 smod N in
       block [
         when_c (r1 \<noteq> M - 1)
           (block [move_v M N (M - 1), move_h M N c1, auto_change M N CHR ''W'']),
         when_c (c1 \<noteq> i)
           (block [move_v M N (M - 2), move_h M N (c1 - 1), move_v M N (M - 1),
                   auto_change M N CHR ''D'', slide_left fuel M N (c1 - 1) i])])"

definition solve_2x1_general :: "nat \<Rightarrow> int \<Rightarrow> int \<Rightarrow> int \<Rightarrow> int \<Rightarrow> int \<Rightarrow> act" where
  "solve_2x1_general fuel M N i r2 c2 =
     block [
       when_c (r2 \<noteq> M - 1)
         (block [move_h M N (i + 1), move_v M N (M - 1), move_h M N c2,
                 auto_change M N CHR ''W'']),
       when_c (c2 \<noteq> i + 1)
         (block [move_v M N (M - 2), move_h M N (c2 - 1), move_v M N (M - 1),
                 auto_change M N CHR ''D'', slide_left fuel M N (c2 - 1) (i + 1)])]"

definition solve_2x1_second :: "nat \<Rightarrow> int \<Rightarrow> int \<Rightarrow> int \<Rightarrow> act" where
  "solve_2x1_second fuel M N i =
     with_find M N ((M - 1) * N + i + 1) (\<lambda>pos2.
       let r2 = pos2 sdiv N; c2 = pos2 smod N in
       if r2 = M - 2 \<and> c2 = i then
         block [move_v M N (M - 2), move_h M N (i + 1),
                append_sol M N ''ASDDWASAWDSDWASDWAASD'']
       else if r2 = M - 2 \<and> c2 = i + 1 then
         with_rd ((M - 2) * N + i) (\<lambda>v.
           if v = - 1 then append_sol M N ''SDDWASAWDSDWASDWAASD''
           else solve_2x1_general fuel M N i r2 c2)
       else solve_2x1_general fuel M N i r2 c2)"

definition solve_2x1_col :: "nat \<Rightarrow> int \<Rightarrow> int \<Rightarrow> int \<Rightarrow> act" where
  "solve_2x1_col fuel M N i =
     block [
       solve_2x1_first fuel M N i,
       solve_2x1_second fuel M N i,
       with_rd ((M - 2) * N + i) (\<lambda>v.
         when_c (v \<noteq> (M - 2) * N + i + 1)
           (block [move_v M N (M - 2), move_h M N i,
                   auto_change M N CHR ''S'', auto_change M N CHR ''D'']))]"

definition solve_2x1 :: "nat \<Rightarrow> int \<Rightarrow> int \<Rightarrow> act" where
  "solve_2x1 fuel M N = for_ints [0 .. N - 3] (solve_2x1_col fuel M N)"

text \<open>The loop \<open>while (puzzle[i*N+j] != num) { pos = find(num); move(pos/N, pos%N, i, j); }\<close>,
  which \<open>autosolve\<close> uses four times.\<close>

primrec place :: "nat \<Rightarrow> int \<Rightarrow> int \<Rightarrow> int \<Rightarrow> int \<Rightarrow> int \<Rightarrow> act" where
  "place 0 M N num i j =
     with_rd (i * N + j) (\<lambda>v. if v \<noteq> num then cut else skip)"
| "place (Suc fuel) M N num i j =
     with_rd (i * N + j) (\<lambda>v.
       if v \<noteq> num then
         with_find M N num (\<lambda>pos.
           thn (move (pos sdiv N) (pos smod N) i j M N) (place fuel M N num i j))
       else skip)"

text \<open>A checking loop \<open>for (k = ...) if (puzzle[k] != k+1) { flag = false; break; }\<close>.\<close>

fun cells_ok :: "board \<Rightarrow> int list \<Rightarrow> error + bool" where
  "cells_ok p [] = Inr True"
| "cells_ok p (k # ks) =
     (case rd p k of Inl e \<Rightarrow> Inl e
      | Inr v \<Rightarrow> if v \<noteq> k + 1 then Inr False else cells_ok p ks)"

definition with_cells_ok :: "int list \<Rightarrow> (bool \<Rightarrow> act) \<Rightarrow> act" where
  "with_cells_ok ks k s =
     (case cells_ok (puzzle s) ks of Inl e \<Rightarrow> Some (Fail e s) | Inr b \<Rightarrow> k b s)"

text \<open>Reporting the log: with \<open>printout\<close> every letter is printed and counted one by one,
  without it the length of the log is added to \<open>step\<close>.\<close>

definition report :: "state \<Rightarrow> state" where
  "report s =
     (if printout s then foldl (\<lambda>t it. t\<lparr>out := out t @ [it], step := step t + 1\<rparr>) s (sol s)
      else s\<lparr>step := step s + int (length (sol s))\<rparr>)"

definition report_row :: act where
  "report_row s =
     Some (Done ((report (if printout s then s\<lparr>shown := shown s @ [puzzle s]\<rparr> else s))\<lparr>sol := []\<rparr>))"

definition solve_row :: "nat \<Rightarrow> int \<Rightarrow> int \<Rightarrow> int \<Rightarrow> act" where
  "solve_row fuel M N i =
     block [
       for_ints [0 .. N - 3] (\<lambda>j. place fuel M N (i * N + j + 1) i j),
       solve_1x2 M N i,
       with_cells_ok [(i + 1) * N - 3 .. (i + 1) * N - 1] (\<lambda>correct.
         when_c (\<not> correct) (append_sol M N ''AWDS'')),
       with_cells_ok (map (\<lambda>k. i * N + k) [0 .. N - 1]) (\<lambda>check.
         when_c check report_row)]"

definition last_three :: "nat \<Rightarrow> int \<Rightarrow> int \<Rightarrow> act" where
  "last_three fuel M N =
     (let i = M - 3 in
      block [
        for_ints [0 .. N - 3] (\<lambda>j. place fuel M N (i * N + j + 1) i j),
        place fuel M N ((i + 1) * N) i (N - 2),
        with_find M N ((i + 1) * N - 1) (\<lambda>pos.
          let r = pos sdiv N; c = pos smod N in
          if r = M - 3 \<and> c = N - 1 then
            block [move_h M N (N - 2), move_v M N (M - 2),
                   append_sol M N ''WDSSAWDSAWWDSAWDSSAWWDSS'']
          else
            block [place fuel M N ((i + 1) * N - 1) (M - 2) (N - 2),
                   move_v M N (M - 1), move_h M N (N - 1), move_v M N (M - 3),
                   auto_change M N CHR ''A'', auto_change M N CHR ''S''])])"

text \<open>The condition of the last loop; \<open>||\<close> short-circuits.\<close>

definition with_unsolved :: "int \<Rightarrow> int \<Rightarrow> (bool \<Rightarrow> act) \<Rightarrow> act" where
  "with_unsolved M N k =
     with_rd (M * N - 2) (\<lambda>a.
       if a \<noteq> M * N - 1 then k True
       else with_rd ((M - 1) * N - 1) (\<lambda>b.
         if b \<noteq> (M - 1) * N then k True
         else with_rd ((M - 1) * N - 2) (\<lambda>c. k (c \<noteq> (M - 1) * N - 1))))"

primrec endgame :: "nat \<Rightarrow> int \<Rightarrow> int \<Rightarrow> act" where
  "endgame 0 M N = with_unsolved M N (\<lambda>u. if u then cut else skip)"
| "endgame (Suc fuel) M N =
     with_unsolved M N (\<lambda>u. if u then thn (append_sol M N ''AWDS'') (endgame fuel M N) else skip)"

definition report_end :: act where
  "report_end s = Some (Done (let t = (report s)\<lparr>sol := []\<rparr> in t\<lparr>shown := shown t @ [puzzle t]\<rparr>))"

text \<open>\<open>autosolve\<close> reads the answer \<open>c\<close> to its question first.  Every while loop gets
  the same fuel.  The value returned is the field \<open>step\<close> of the final state.\<close>

definition set_printout :: "char \<Rightarrow> act" where
  "set_printout c s =
     Some (Done (s\<lparr>printout := (if c = CHR ''Y'' \<or> c = CHR ''y'' then True
                                 else if c = CHR ''N'' \<or> c = CHR ''n'' then False
                                 else True),
                    step := 0\<rparr>))"

definition autosolve :: "nat \<Rightarrow> int \<Rightarrow> int \<Rightarrow> char \<Rightarrow> act" where
  "autosolve fuel M N c =
     block [
       set_printout c,
       for_ints [0 .. M - 4] (solve_row fuel M N),
       when_c (M \<ge> 3) (last_three fuel M N),
       solve_2x1 fuel M N,
       move_h M N (N - 1),
       move_v M N (M - 1),
       endgame fuel M N,
       report_end]"

text \<open>The state in which \<open>autosolve\<close> is called on a board, with an empty log.\<close>

definition init :: "board \<Rightarrow> state" where
  "init p = \<lparr>puzzle = p, sol = [], printout = True, step = 0, shown = [], out = [], hist = []\<rparr>"

section \<open>A simulation argument that follows the structure of the solver\<close>

text \<open>Two runs are compared statement by statement, from states in a relation \<open>R\<close>.
  The first run always has an outcome, and the second has an outcome in the same relation
  (\<open>Q\<close> for failures).  With \<open>z\<close> the two runs have the same fuel, and are cut off at the
  same point.  Without \<open>z\<close> the second run has at least the fuel of the first, and nothing
  is said when the first run is cut off.\<close>

fun rel_out :: "(state \<Rightarrow> state \<Rightarrow> bool) \<Rightarrow> (error \<Rightarrow> state \<Rightarrow> error \<Rightarrow> state \<Rightarrow> bool)
    \<Rightarrow> outcome \<Rightarrow> outcome \<Rightarrow> bool" where
  "rel_out R Q (Done s) (Done t) = R s t"
| "rel_out R Q (Return s) (Return t) = R s t"
| "rel_out R Q (Fail e s) (Fail e' t) = Q e s e' t"
| "rel_out R Q (Cut s) (Cut t) = R s t"
| "rel_out R Q _ _ = False"

definition unobserved :: "bool \<Rightarrow> outcome \<Rightarrow> bool" where
  "unobserved z r \<longleftrightarrow> \<not> z \<and> (\<exists>s. r = Cut s)"

definition sim :: "bool \<Rightarrow> (state \<Rightarrow> state \<Rightarrow> bool)
    \<Rightarrow> (error \<Rightarrow> state \<Rightarrow> error \<Rightarrow> state \<Rightarrow> bool) \<Rightarrow> act \<Rightarrow> act \<Rightarrow> bool" where
  "sim z R Q f g \<longleftrightarrow>
     (\<forall>s t. R s t \<longrightarrow>
        (\<exists>r. f s = Some r \<and> (unobserved z r \<or> (\<exists>r'. g t = Some r' \<and> rel_out R Q r r'))))"

definition fuel_ok :: "bool \<Rightarrow> nat \<Rightarrow> nat \<Rightarrow> bool" where
  "fuel_ok z f g \<longleftrightarrow> f \<le> g \<and> (z \<longrightarrow> f = g)"

definition sound :: "bool \<Rightarrow> int \<Rightarrow> int \<Rightarrow> (state \<Rightarrow> state \<Rightarrow> bool)
    \<Rightarrow> (error \<Rightarrow> state \<Rightarrow> error \<Rightarrow> state \<Rightarrow> bool) \<Rightarrow> bool" where
  "sound z M N R Q \<longleftrightarrow>
     (\<forall>s t. R s t \<longrightarrow> puzzle s = puzzle t) \<and>
     (\<forall>s t e. R s t \<longrightarrow> Q e s e t) \<and>
     (\<forall>c. sim z R Q (auto_change M N c) (auto_change M N c)) \<and>
     (\<forall>cs. sim z R Q (append_sol M N cs) (append_sol M N cs)) \<and>
     sim z R Q report_row report_row \<and>
     sim z R Q report_end report_end"

lemma unobserved_simps [simp]:
  "\<not> unobserved True r" "\<not> unobserved z (Done s)" "\<not> unobserved z (Return s)"
  "\<not> unobserved z (Fail e s)" "unobserved z (Cut s) \<longleftrightarrow> \<not> z"
  by (simp_all add: unobserved_def)

lemma fuel_ok_refl: "fuel_ok z f f"
  by (simp add: fuel_ok_def)

lemma fuel_ok_le: "f \<le> g \<Longrightarrow> fuel_ok False f g"
  by (simp add: fuel_ok_def)

lemma simI:
  assumes "\<And>s t. R s t \<Longrightarrow>
    \<exists>r. f s = Some r \<and> (unobserved z r \<or> (\<exists>r'. g t = Some r' \<and> rel_out R Q r r'))"
  shows "sim z R Q f g"
  using assms by (auto simp: sim_def)

lemma sim_total:
  assumes "sim z R Q f g" and "R s t"
  shows "\<exists>r. f s = Some r"
  using assms unfolding sim_def by blast

lemma simD:
  assumes "sim z R Q f g" and "R s t" and "f s = Some r" and "\<not> unobserved z r"
  shows "\<exists>r'. g t = Some r' \<and> rel_out R Q r r'"
  using assms unfolding sim_def by fastforce

lemma sim_skip: "sim z R Q skip skip"
  by (simp add: sim_def skip_def)

lemma sim_cut: "sim z R Q cut cut"
  by (simp add: sim_def cut_def)

lemma sim_cut_more: "\<not> z \<Longrightarrow> sim z R Q cut g"
  by (simp add: sim_def cut_def)

lemma sim_thn:
  assumes f: "sim z R Q f f'" and g: "sim z R Q g g'"
  shows "sim z R Q (thn f g) (thn f' g')"
proof (rule simI)
  fix s t
  assume R: "R s t"
  obtain r1 where r1: "f s = Some r1" using sim_total [OF f R] by blast
  show "\<exists>r. thn f g s = Some r \<and>
          (unobserved z r \<or> (\<exists>r'. thn f' g' t = Some r' \<and> rel_out R Q r r'))"
  proof (cases "unobserved z r1")
    case True
    then show ?thesis using r1 by (auto simp: thn_def unobserved_def)
  next
    case False
    from simD [OF f R r1 False] obtain r1' where r1': "f' t = Some r1'"
      and rel: "rel_out R Q r1 r1'" by blast
    show ?thesis
    proof (cases r1)
      case (Done s1)
      with rel obtain t1 where t1: "r1' = Done t1" "R s1 t1"
        by (cases r1') auto
      have "thn f g s = g s1" "thn f' g' t = g' t1"
        using r1 r1' Done t1(1) by (simp_all add: thn_def)
      then show ?thesis using g t1(2) by (simp add: sim_def)
    next
      case (Return s1)
      moreover from Return rel obtain t1 where "r1' = Return t1" by (cases r1') auto
      ultimately show ?thesis using r1 r1' rel by (simp add: thn_def)
    next
      case (Fail e s1)
      moreover from Fail rel obtain e' t1 where "r1' = Fail e' t1" by (cases r1') auto
      ultimately show ?thesis using r1 r1' rel by (simp add: thn_def)
    next
      case (Cut s1)
      moreover from Cut rel obtain t1 where "r1' = Cut t1" by (cases r1') auto
      ultimately show ?thesis using r1 r1' rel by (simp add: thn_def)
    qed
  qed
qed

lemma sim_block_Nil: "sim z R Q (block []) (block [])"
  by (simp add: sim_skip)

lemma sim_block_Cons:
  "sim z R Q f f' \<Longrightarrow> sim z R Q (block fs) (block fs') \<Longrightarrow>
   sim z R Q (block (f # fs)) (block (f' # fs'))"
  by (simp add: sim_thn)

lemma sim_when: "sim z R Q f g \<Longrightarrow> sim z R Q (when_c b f) (when_c b g)"
  by (simp add: when_c_def sim_skip)

lemma sim_if:
  "(b \<Longrightarrow> sim z R Q f g) \<Longrightarrow> (\<not> b \<Longrightarrow> sim z R Q f' g') \<Longrightarrow>
   sim z R Q (if b then f else f') (if b then g else g')"
  by simp

lemma sim_times: "sim z R Q f g \<Longrightarrow> sim z R Q (times n f) (times n g)"
  by (induction n) (simp_all add: sim_skip sim_thn)

lemma sim_for_ints: "(\<And>k. sim z R Q (f k) (g k)) \<Longrightarrow> sim z R Q (for_ints ks f) (for_ints ks g)"
  by (induction ks) (simp_all add: sim_skip sim_thn)

lemma sim_with_find:
  assumes "sound z M N R Q" and "\<And>pos. sim z R Q (k pos) (k' pos)"
  shows "sim z R Q (with_find M N v k) (with_find M N v k')"
proof (rule simI)
  fix s t
  assume R: "R s t"
  have p: "puzzle s = puzzle t" and q: "\<And>e. Q e s e t"
    using assms(1) R by (auto simp: sound_def)
  show "\<exists>r. with_find M N v k s = Some r \<and>
          (unobserved z r \<or> (\<exists>r'. with_find M N v k' t = Some r' \<and> rel_out R Q r r'))"
  proof (cases "find_val M N (puzzle s) v")
    case (Inl e)
    then show ?thesis using p q by (simp add: with_find_def)
  next
    case (Inr pos)
    then show ?thesis using assms(2) [of pos] R p by (simp add: with_find_def sim_def)
  qed
qed

lemma sim_with_rd:
  assumes "sound z M N R Q" and "\<And>v. sim z R Q (k v) (k' v)"
  shows "sim z R Q (with_rd idx k) (with_rd idx k')"
proof (rule simI)
  fix s t
  assume R: "R s t"
  have p: "puzzle s = puzzle t" and q: "\<And>e. Q e s e t"
    using assms(1) R by (auto simp: sound_def)
  show "\<exists>r. with_rd idx k s = Some r \<and>
          (unobserved z r \<or> (\<exists>r'. with_rd idx k' t = Some r' \<and> rel_out R Q r r'))"
  proof (cases "rd (puzzle s) idx")
    case (Inl e)
    then show ?thesis using p q by (simp add: with_rd_def)
  next
    case (Inr v)
    then show ?thesis using assms(2) [of v] R p by (simp add: with_rd_def sim_def)
  qed
qed

lemma sim_with_cells_ok:
  assumes "sound z M N R Q" and "\<And>b. sim z R Q (k b) (k' b)"
  shows "sim z R Q (with_cells_ok ks k) (with_cells_ok ks k')"
proof (rule simI)
  fix s t
  assume R: "R s t"
  have p: "puzzle s = puzzle t" and q: "\<And>e. Q e s e t"
    using assms(1) R by (auto simp: sound_def)
  show "\<exists>r. with_cells_ok ks k s = Some r \<and>
          (unobserved z r \<or> (\<exists>r'. with_cells_ok ks k' t = Some r' \<and> rel_out R Q r r'))"
  proof (cases "cells_ok (puzzle s) ks")
    case (Inl e)
    then show ?thesis using p q by (simp add: with_cells_ok_def)
  next
    case (Inr v)
    then show ?thesis using assms(2) [of v] R p by (simp add: with_cells_ok_def sim_def)
  qed
qed

lemma sim_ret_if: "sound z M N R Q \<Longrightarrow> sim z R Q (ret_if idx num) (ret_if idx num)"
  unfolding ret_if_def
  by (rule sim_with_rd, assumption) (simp add: sim_def)

lemma sim_returning:
  assumes "sim z R Q f g"
  shows "sim z R Q (returning f) (returning g)"
proof (rule simI)
  fix s t
  assume R: "R s t"
  obtain r1 where r1: "f s = Some r1" using sim_total [OF assms R] by blast
  show "\<exists>r. returning f s = Some r \<and>
          (unobserved z r \<or> (\<exists>r'. returning g t = Some r' \<and> rel_out R Q r r'))"
  proof (cases "unobserved z r1")
    case True
    then show ?thesis using r1 by (auto simp: returning_def unobserved_def)
  next
    case False
    from simD [OF assms R r1 False] obtain r1' where r1': "g t = Some r1'"
      and rel: "rel_out R Q r1 r1'" by blast
    show ?thesis
      using r1 r1' rel by (cases r1; cases r1') (auto simp: returning_def)
  qed
qed

lemma sim_auto_change: "sound z M N R Q \<Longrightarrow> sim z R Q (auto_change M N c) (auto_change M N c)"
  by (simp add: sound_def)

lemma sim_append_sol: "sound z M N R Q \<Longrightarrow> sim z R Q (append_sol M N cs) (append_sol M N cs)"
  by (simp add: sound_def)

lemmas sim_intros = sim_skip sim_cut sim_thn sim_block_Nil sim_block_Cons sim_when sim_if
  sim_times sim_for_ints sim_with_find sim_with_rd sim_with_cells_ok sim_ret_if sim_returning
  sim_auto_change sim_append_sol

lemma sim_move_h: "sound z M N R Q \<Longrightarrow> sim z R Q (move_h M N c) (move_h M N c)"
  unfolding move_h_def Let_def by (intro sim_intros; assumption)

lemma sim_move_v: "sound z M N R Q \<Longrightarrow> sim z R Q (move_v M N c) (move_v M N c)"
  unfolding move_v_def Let_def by (intro sim_intros; assumption)

lemma sim_move: "sound z M N R Q \<Longrightarrow> sim z R Q (move r c i j M N) (move r c i j M N)"
  unfolding move_def Let_def by (intro sim_intros sim_move_h sim_move_v; assumption)

lemma sim_solve_1x2: "sound z M N R Q \<Longrightarrow> sim z R Q (solve_1x2 M N i) (solve_1x2 M N i)"
  unfolding solve_1x2_def solve_1x2_a_def solve_1x2_b_def solve_1x2_c_def solve_1x2_d_def
    solve_1x2_lift_def Let_def
  by (intro sim_intros sim_move_h sim_move_v; assumption)

lemma fuel_ok_Suc:
  assumes "fuel_ok z (Suc f) g"
  obtains g' where "g = Suc g'" and "fuel_ok z f g'"
  using assms by (cases g) (auto simp: fuel_ok_def)

lemma fuel_ok_0_Suc: "fuel_ok z 0 (Suc g) \<Longrightarrow> \<not> z"
  by (simp add: fuel_ok_def)

lemma sim_slide_left:
  "sound z M N R Q \<Longrightarrow> fuel_ok z f g \<Longrightarrow>
   sim z R Q (slide_left f M N c1 i) (slide_left g M N c1 i)"
proof (induction f arbitrary: g c1)
  case 0
  show ?case
  proof (cases g)
    case 0
    show ?thesis unfolding 0 slide_left.simps by (intro sim_intros)
  next
    case (Suc g')
    have "\<not> z" using "0.prems"(2) unfolding Suc by (rule fuel_ok_0_Suc)
    then show ?thesis unfolding Suc slide_left.simps by (intro sim_if sim_skip sim_cut_more)
  qed
next
  case (Suc f)
  from Suc.prems(2) obtain g' where g: "g = Suc g'" "fuel_ok z f g'" by (rule fuel_ok_Suc)
  show ?case unfolding g(1) slide_left.simps
    by (intro sim_intros Suc.IH [OF Suc.prems(1) g(2)]; rule Suc.prems(1))
qed

lemma sim_solve_2x1:
  "sound z M N R Q \<Longrightarrow> fuel_ok z f g \<Longrightarrow> sim z R Q (solve_2x1 f M N) (solve_2x1 g M N)"
  unfolding solve_2x1_def solve_2x1_col_def solve_2x1_first_def solve_2x1_second_def
    solve_2x1_general_def Let_def
  by (intro sim_intros sim_move_h sim_move_v sim_slide_left; assumption)

lemma sim_place:
  "sound z M N R Q \<Longrightarrow> fuel_ok z f g \<Longrightarrow>
   sim z R Q (place f M N num i j) (place g M N num i j)"
proof (induction f arbitrary: g)
  case 0
  show ?case
  proof (cases g)
    case 0
    show ?thesis unfolding 0 place.simps by (intro sim_intros; rule "0.prems"(1))
  next
    case (Suc g')
    have nz: "\<not> z" using "0.prems"(2) unfolding Suc by (rule fuel_ok_0_Suc)
    show ?thesis unfolding Suc place.simps
      by (intro sim_with_rd [OF "0.prems"(1)] sim_if sim_skip sim_cut_more [OF nz])
  qed
next
  case (Suc f)
  from Suc.prems(2) obtain g' where g: "g = Suc g'" "fuel_ok z f g'" by (rule fuel_ok_Suc)
  show ?case unfolding g(1) place.simps
    by (intro sim_intros sim_move Suc.IH [OF Suc.prems(1) g(2)]; rule Suc.prems(1))
qed

lemma sim_report_row: "sound z M N R Q \<Longrightarrow> sim z R Q report_row report_row"
  by (simp add: sound_def)

lemma sim_report_end: "sound z M N R Q \<Longrightarrow> sim z R Q report_end report_end"
  by (simp add: sound_def)

lemma sim_solve_row:
  "sound z M N R Q \<Longrightarrow> fuel_ok z f g \<Longrightarrow> sim z R Q (solve_row f M N i) (solve_row g M N i)"
  unfolding solve_row_def
  by (intro sim_intros sim_place sim_solve_1x2 sim_report_row; assumption)

lemma sim_last_three:
  "sound z M N R Q \<Longrightarrow> fuel_ok z f g \<Longrightarrow> sim z R Q (last_three f M N) (last_three g M N)"
  unfolding last_three_def Let_def
  by (intro sim_intros sim_place sim_move_h sim_move_v; assumption)

lemma sim_with_unsolved:
  assumes "sound z M N R Q" and "\<And>b. sim z R Q (k b) (k' b)"
  shows "sim z R Q (with_unsolved M N k) (with_unsolved M N k')"
  unfolding with_unsolved_def
  by (intro sim_intros assms(2); rule assms(1))

lemma sim_endgame:
  "sound z M N R Q \<Longrightarrow> fuel_ok z f g \<Longrightarrow> sim z R Q (endgame f M N) (endgame g M N)"
proof (induction f arbitrary: g)
  case 0
  show ?case
  proof (cases g)
    case 0
    show ?thesis unfolding 0 endgame.simps
      by (intro sim_with_unsolved sim_intros; rule "0.prems"(1))
  next
    case (Suc g')
    have nz: "\<not> z" using "0.prems"(2) unfolding Suc by (rule fuel_ok_0_Suc)
    show ?thesis unfolding Suc endgame.simps
      by (intro sim_with_unsolved [OF "0.prems"(1)] sim_if sim_skip sim_cut_more [OF nz])
  qed
next
  case (Suc f)
  from Suc.prems(2) obtain g' where g: "g = Suc g'" "fuel_ok z f g'" by (rule fuel_ok_Suc)
  show ?case unfolding g(1) endgame.simps
    by (intro sim_with_unsolved sim_intros Suc.IH [OF Suc.prems(1) g(2)]; rule Suc.prems(1))
qed

lemma sim_autosolve:
  assumes "sound z M N R Q" and "fuel_ok z f g"
    and "sim z R Q (set_printout c) (set_printout c')"
  shows "sim z R Q (autosolve f M N c) (autosolve g M N c')"
  unfolding autosolve_def
  by (intro sim_intros sim_solve_row sim_last_three sim_solve_2x1 sim_move_h sim_move_v
        sim_endgame sim_report_end assms(2,3); rule assms(1))

subsection \<open>More fuel changes nothing\<close>

definition same_fail :: "error \<Rightarrow> state \<Rightarrow> error \<Rightarrow> state \<Rightarrow> bool" where
  "same_fail e s e' t \<longleftrightarrow> e = e' \<and> s = t"

lemma rel_out_eq: "rel_out (=) same_fail r r' \<longleftrightarrow> r = r'"
  by (cases r; cases r') (auto simp: same_fail_def)

lemma sim_eq_refl:
  assumes "\<And>s. \<exists>r. f s = Some r"
  shows "sim z (=) same_fail f f"
  unfolding sim_def rel_out_eq using assms by blast

lemma thn_total:
  assumes "\<And>s. \<exists>r. f s = Some r" and "\<And>s. \<exists>r. g s = Some r"
  shows "\<exists>r. thn f g s = Some r"
proof -
  obtain r where r: "f s = Some r" using assms(1) by blast
  show ?thesis using r assms(2) by (cases r) (simp_all add: thn_def)
qed

lemma apply_syms_total: "\<exists>r. block (map (apply_sym M N) cs) s = Some r"
proof (induction cs arbitrary: s)
  case Nil
  show ?case by (simp add: skip_def)
next
  case (Cons c cs)
  have "\<exists>r. apply_sym M N c s = Some r" for s
    by (simp add: apply_sym_def split: sum.splits)
  then show ?case using Cons by (simp add: thn_total)
qed

lemma sound_eq: "sound z M N (=) same_fail"
  unfolding sound_def
  by (intro conjI allI impI sim_eq_refl)
     (simp_all add: same_fail_def auto_change_def append_sol_def apply_syms_total
        report_row_def report_end_def split: sum.splits)

lemma set_printout_eq: "sim z (=) same_fail (set_printout c) (set_printout c)"
  by (rule sim_eq_refl) (simp add: set_printout_def)

lemma autosolve_mono:
  assumes "autosolve f M N c s = Some r" and "\<And>t. r \<noteq> Cut t" and "f \<le> g"
  shows "autosolve g M N c s = Some r"
proof -
  have "\<not> unobserved False r" using assms(2) by (simp add: unobserved_def)
  from simD [OF sim_autosolve [OF sound_eq fuel_ok_le [OF assms(3)] set_printout_eq]
      refl assms(1) this]
  show ?thesis by (simp add: rel_out_eq)
qed

lemma endgame_mono:
  assumes "endgame f M N s = Some r" and "\<And>t. r \<noteq> Cut t" and "f \<le> g"
  shows "endgame g M N s = Some r"
proof -
  have "\<not> unobserved False r" using assms(2) by (simp add: unobserved_def)
  from simD [OF sim_endgame [OF sound_eq fuel_ok_le [OF assms(3)]] refl assms(1) this]
  show ?thesis by (simp add: rel_out_eq)
qed

subsection \<open>The rendering flag is not observed\<close>

definition same_core :: "state \<Rightarrow> state \<Rightarrow> bool" where
  "same_core s t \<longleftrightarrow> puzzle s = puzzle t \<and> sol s = sol t \<and> step s = step t \<and> hist s = hist t"

definition same_core_fail :: "error \<Rightarrow> state \<Rightarrow> error \<Rightarrow> state \<Rightarrow> bool" where
  "same_core_fail e s e' t \<longleftrightarrow> e = e' \<and> same_core s t"

lemma same_core_render: "same_core s t \<Longrightarrow> same_core (render s) (render t)"
  by (simp add: same_core_def render_def)

lemma core_auto_change: "sim z same_core same_core_fail (auto_change M N c) (auto_change M N c)"
  by (auto simp: sim_def auto_change_def same_core_def same_core_fail_def render_def
      split: sum.splits)

lemma core_apply_sym: "sim z same_core same_core_fail (apply_sym M N c) (apply_sym M N c)"
  by (auto simp: sim_def apply_sym_def same_core_def same_core_fail_def render_def
      split: sum.splits)

lemma core_block_map:
  "sim z same_core same_core_fail (block (map (apply_sym M N) cs)) (block (map (apply_sym M N) cs))"
  by (induction cs) (simp_all add: sim_skip sim_thn core_apply_sym)

lemma core_append_sol: "sim z same_core same_core_fail (append_sol M N cs) (append_sol M N cs)"
proof (rule simI)
  fix s t
  assume R: "same_core s t"
  have "same_core (s\<lparr>sol := sol s @ cs\<rparr>) (t\<lparr>sol := sol t @ cs\<rparr>)"
    using R by (simp add: same_core_def)
  then show "\<exists>r. append_sol M N cs s = Some r \<and>
          (unobserved z r \<or>
           (\<exists>r'. append_sol M N cs t = Some r' \<and> rel_out same_core same_core_fail r r'))"
    using core_block_map [of z M N cs] by (simp add: append_sol_def sim_def)
qed

lemma report_fold:
  "foldl (\<lambda>t it. t\<lparr>out := out t @ [it], step := step t + 1\<rparr>) s cs
   = s\<lparr>out := out s @ cs, step := step s + int (length cs)\<rparr>"
  by (induction cs arbitrary: s) simp_all

lemma same_core_report: "same_core s t \<Longrightarrow> same_core (report s) (report t)"
  by (simp add: same_core_def report_def report_fold)

lemma core_report_row: "sim z same_core same_core_fail report_row report_row"
  by (auto simp: sim_def report_row_def same_core_def report_def report_fold)

lemma core_report_end: "sim z same_core same_core_fail report_end report_end"
  by (auto simp: sim_def report_end_def same_core_def report_def report_fold Let_def)

lemma sound_core: "sound z M N same_core same_core_fail"
  by (simp add: sound_def core_auto_change core_append_sol core_report_row core_report_end)
     (simp add: same_core_def same_core_fail_def)

lemma core_set_printout: "sim z same_core same_core_fail (set_printout c) (set_printout c')"
  by (simp add: sim_def set_printout_def same_core_def)

text \<open>What a run leaves behind when the terminal output and the flag are put aside.\<close>

definition erase :: "state \<Rightarrow> state" where
  "erase s = s\<lparr>printout := True, shown := [], out := []\<rparr>"

fun erase_out :: "outcome \<Rightarrow> outcome" where
  "erase_out (Done s) = Done (erase s)"
| "erase_out (Return s) = Return (erase s)"
| "erase_out (Fail e s) = Fail e (erase s)"
| "erase_out (Cut s) = Cut (erase s)"

lemma same_core_erase: "same_core s t \<longleftrightarrow> erase s = erase t"
  by (cases s; cases t) (auto simp: same_core_def erase_def)

lemma rel_out_core: "rel_out same_core same_core_fail r r' \<longleftrightarrow> erase_out r = erase_out r'"
  by (cases r; cases r') (auto simp: same_core_fail_def same_core_erase)

lemma core_autosolve:
  "sim True same_core same_core_fail (autosolve fuel M N c) (autosolve fuel M N c')"
  by (rule sim_autosolve [OF sound_core fuel_ok_refl core_set_printout])

lemma core_autosolveD:
  assumes "same_core s t"
  shows "\<exists>r r'. autosolve fuel M N c s = Some r \<and> autosolve fuel M N c' t = Some r' \<and>
                erase_out r = erase_out r'"
  using core_autosolve [of fuel M N c c'] assms by (simp add: sim_def rel_out_core)

text \<open>
  Claim C9.  Two runs of \<open>autosolve\<close> from the same state that differ only in the answer
  that sets the flag \<open>printout\<close> agree on everything but the terminal.  For every fuel both
  have an outcome, and the outcomes are equal once the flag and what was written to the
  terminal are put aside: both return, both fail or both are cut off, with the same board,
  the same log, the same history of moves applied to the array and the same step count.
  So the two runs go through the same changes of the board also when they never return:
  for every fuel they are then cut off with the same history.
\<close>

theorem printout_not_observed:
  "\<exists>r r'. autosolve fuel M N c s = Some r \<and> autosolve fuel M N c' s = Some r' \<and>
          erase_out r = erase_out r'"
  by (rule core_autosolveD) (simp add: same_core_def)

theorem printout_not_observed_witness:
  "autosolve 1 2 2 CHR ''y'' (init [1, 2, - 1, 3])
     = Some (Done \<lparr>puzzle = [1, 2, 3, - 1], sol = [], printout = True, step = 1,
                    shown = [[1, 2, 3, - 1], [1, 2, 3, - 1]], out = ''D'', hist = ''D''\<rparr>) \<and>
   (\<exists>r'. autosolve 1 2 2 CHR ''n'' (init [1, 2, - 1, 3]) = Some r' \<and>
      erase_out r' = Done \<lparr>puzzle = [1, 2, 3, - 1], sol = [], printout = True, step = 1,
                           shown = [], out = [], hist = ''D''\<rparr>) \<and>
   autosolve 2 2 3 CHR ''n'' (init [2, 4, - 1, 1, 5, 3])
     = Some (Cut \<lparr>puzzle = [1, 3, 2, 5, 4, - 1], sol = ''ASWASDDAWDSAWDS'', printout = False,
                   step = 0, shown = [], out = [], hist = ''ASWASDDAWDSAWDS''\<rparr>) \<and>
   (\<exists>r'. autosolve 2 2 3 CHR ''y'' (init [2, 4, - 1, 1, 5, 3]) = Some r' \<and>
      erase_out r' = Cut \<lparr>puzzle = [1, 3, 2, 5, 4, - 1], sol = ''ASWASDDAWDSAWDS'',
                          printout = True, step = 0, shown = [], out = [],
                          hist = ''ASWASDDAWDSAWDS''\<rparr>)"
proof -
  have y: "autosolve 1 2 2 CHR ''y'' (init [1, 2, - 1, 3])
     = Some (Done \<lparr>puzzle = [1, 2, 3, - 1], sol = [], printout = True, step = 1,
                    shown = [[1, 2, 3, - 1], [1, 2, 3, - 1]], out = ''D'', hist = ''D''\<rparr>)"
    by code_simp
  have n: "autosolve 2 2 3 CHR ''n'' (init [2, 4, - 1, 1, 5, 3])
     = Some (Cut \<lparr>puzzle = [1, 3, 2, 5, 4, - 1], sol = ''ASWASDDAWDSAWDS'', printout = False,
                   step = 0, shown = [], out = [], hist = ''ASWASDDAWDSAWDS''\<rparr>)"
    by code_simp
  show ?thesis
    using printout_not_observed [of 1 2 2 "CHR ''y''" "init [1, 2, - 1, 3]" "CHR ''n''"] y
      printout_not_observed [of 2 2 3 "CHR ''n''" "init [2, 4, - 1, 1, 5, 3]" "CHR ''y''"] n
    by (auto simp: erase_def)
qed

section \<open>Runs of \<open>autosolve\<close> on given boards\<close>

lemma autosolve_any_answer:
  assumes "autosolve fuel M N c (init b) = Some (Done s)"
  shows "\<exists>t. autosolve fuel M N c' (init b) = Some (Done t) \<and> same_core s t"
proof -
  have R: "same_core (init b) (init b)" by (simp add: same_core_def)
  from simD [OF core_autosolve [of fuel M N c c'] R assms]
  obtain r' where r': "autosolve fuel M N c' (init b) = Some r'"
    and rel: "rel_out same_core same_core_fail (Done s) r'" by auto
  from rel obtain t where "r' = Done t" "same_core s t" by (cases r') auto
  with r' show ?thesis by blast
qed

lemma solved_3x3_y:
  "(case autosolve 1 3 3 CHR ''y'' (init [1, 2, 3, 4, 5, 6, 7, 8, - 1]) of
      Some (Done s) \<Rightarrow> puzzle s = [1, 2, 3, 4, 5, 6, 7, 8, - 1] \<and> step s = 16 \<and>
        hist s = ''AWWDSSWWASSAWSDD'' \<and> sol s = []
    | _ \<Rightarrow> False)"
  by code_simp

text \<open>
  Claim C7 says that \<open>autosolve\<close> on the 3\<times>3 board in canonical order returns step
  count 0 with an empty move log and never mutates the board.  The run does not do that:
  \<open>autosolve\<close> has no test for a board that is solved already, and its first statements
  move the blank at once.
\<close>

theorem solved_3x3_counterexample:
  "\<not> (\<exists>s. autosolve 1 3 3 CHR ''y'' (init [1, 2, 3, 4, 5, 6, 7, 8, - 1]) = Some (Done s) \<and>
          step s = 0 \<and> hist s = [])"
  using solved_3x3_y by (auto split: option.splits outcome.splits)

text \<open>
  Claim C7 as amended.  Started with an empty \<open>sol\<close> (the state \<open>init\<close>) on the 3\<times>3
  board in canonical order, \<open>autosolve\<close> returns, whatever the answer to its question and
  with fuel for one pass of each loop or more.  It has then applied the 16 moves
  \<open>AWWDSSWWASSAWSDD\<close> and no others, its step count is 16, the board is in canonical
  order again, and the vector \<open>sol\<close> handed back is empty.
\<close>

theorem solved_3x3_run:
  "\<exists>s. autosolve (Suc fuel) 3 3 c (init [1, 2, 3, 4, 5, 6, 7, 8, - 1]) = Some (Done s) \<and>
       puzzle s = [1, 2, 3, 4, 5, 6, 7, 8, - 1] \<and> step s = 16 \<and>
       hist s = ''AWWDSSWWASSAWSDD'' \<and> sol s = []"
proof -
  from solved_3x3_y obtain s where
    s: "autosolve 1 3 3 CHR ''y'' (init [1, 2, 3, 4, 5, 6, 7, 8, - 1]) = Some (Done s)"
    and P: "puzzle s = [1, 2, 3, 4, 5, 6, 7, 8, - 1]" "step s = 16"
      "hist s = ''AWWDSSWWASSAWSDD''" "sol s = []"
    by (auto split: option.splits outcome.splits)
  from autosolve_any_answer [OF s, of c] obtain t where
    t: "autosolve 1 3 3 c (init [1, 2, 3, 4, 5, 6, 7, 8, - 1]) = Some (Done t)"
    and st: "same_core s t" by blast
  have "autosolve (Suc fuel) 3 3 c (init [1, 2, 3, 4, 5, 6, 7, 8, - 1]) = Some (Done t)"
    by (rule autosolve_mono [OF t]) simp_all
  then show ?thesis using P st by (auto simp: same_core_def)
qed

section \<open>The printed log replays to the final board\<close>

text \<open>Replaying a move sequence on a copy of a board with the primitive move alone.\<close>

fun replay :: "int \<Rightarrow> int \<Rightarrow> board \<Rightarrow> string \<Rightarrow> error + board" where
  "replay M N p [] = Inr p"
| "replay M N p (c # cs) = (case change M N p c of Inl e \<Rightarrow> Inl e | Inr p' \<Rightarrow> replay M N p' cs)"

lemma replay_append:
  "replay M N p (cs @ ds)
   = (case replay M N p cs of Inl e \<Rightarrow> Inl e | Inr p' \<Rightarrow> replay M N p' ds)"
  by (induction cs arbitrary: p) (auto split: sum.splits)

lemma render_fields [simp]:
  "puzzle (render s) = puzzle s" "sol (render s) = sol s" "printout (render s) = printout s"
  "step (render s) = step s" "out (render s) = out s" "hist (render s) = hist s"
  by (simp_all add: render_def)

lemma thn_apply_sym:
  "thn (apply_sym M N c) g u
   = (case change M N (puzzle u) c of
        Inl e \<Rightarrow> Some (Fail e u)
      | Inr p \<Rightarrow> g (render (u\<lparr>puzzle := p, hist := hist u @ [c]\<rparr>)))"
  by (simp add: thn_def apply_sym_def split: sum.splits)

text \<open>With \<open>printout\<close> on: what has been printed, followed by what is still in \<open>sol\<close>, is
  the history of the moves applied, and the history replays to the board.\<close>

definition logged :: "int \<Rightarrow> int \<Rightarrow> board \<Rightarrow> state \<Rightarrow> bool" where
  "logged M N b s \<longleftrightarrow>
     printout s \<and> hist s = out s @ sol s \<and> replay M N b (hist s) = Inr (puzzle s)"

definition logged_rel :: "int \<Rightarrow> int \<Rightarrow> board \<Rightarrow> state \<Rightarrow> state \<Rightarrow> bool" where
  "logged_rel M N b s t \<longleftrightarrow> s = t \<and> logged M N b s"

text \<open>With \<open>printout\<close> off: no letter has been printed, and the history replays to the
  board.\<close>

definition silent :: "int \<Rightarrow> int \<Rightarrow> board \<Rightarrow> state \<Rightarrow> bool" where
  "silent M N b s \<longleftrightarrow> \<not> printout s \<and> out s = [] \<and> replay M N b (hist s) = Inr (puzzle s)"

definition silent_rel :: "int \<Rightarrow> int \<Rightarrow> board \<Rightarrow> state \<Rightarrow> state \<Rightarrow> bool" where
  "silent_rel M N b s t \<longleftrightarrow> s = t \<and> silent M N b s"

definition any_fail :: "error \<Rightarrow> state \<Rightarrow> error \<Rightarrow> state \<Rightarrow> bool" where
  "any_fail e s e' t \<longleftrightarrow> True"

lemma logged_auto_change:
  "sim z (logged_rel M N b) any_fail (auto_change M N c) (auto_change M N c)"
  by (auto simp: sim_def logged_rel_def logged_def any_fail_def auto_change_def
        replay_append split: sum.splits)

lemma silent_auto_change:
  "sim z (silent_rel M N b) any_fail (auto_change M N c) (auto_change M N c)"
  by (auto simp: sim_def silent_rel_def silent_def any_fail_def auto_change_def
        replay_append split: sum.splits)

lemma block_apply_syms:
  assumes "replay M N b (hist u) = Inr (puzzle u)"
  shows "\<exists>r. block (map (apply_sym M N) cs) u = Some r \<and>
           (case r of
              Done u' \<Rightarrow> hist u' = hist u @ cs \<and> replay M N b (hist u') = Inr (puzzle u') \<and>
                out u' = out u \<and> sol u' = sol u \<and> printout u' = printout u
            | Return u' \<Rightarrow> False
            | Fail e u' \<Rightarrow> True
            | Cut u' \<Rightarrow> False)"
  using assms
proof (induction cs arbitrary: u)
  case Nil
  then show ?case by (auto simp: skip_def)
next
  case (Cons c cs)
  show ?case
  proof (cases "change M N (puzzle u) c")
    case (Inl e)
    then show ?thesis by (auto simp: thn_apply_sym)
  next
    case (Inr p)
    let ?u1 = "render (u\<lparr>puzzle := p, hist := hist u @ [c]\<rparr>)"
    have "replay M N b (hist ?u1) = Inr (puzzle ?u1)"
      using Cons.prems Inr by (simp add: replay_append)
    from Cons.IH [OF this] show ?thesis
      using Inr by (auto simp: thn_apply_sym split: outcome.splits)
  qed
qed

lemma logged_append_sol:
  "sim z (logged_rel M N b) any_fail (append_sol M N cs) (append_sol M N cs)"
proof (rule simI)
  fix s t
  assume R: "logged_rel M N b s t"
  have st: "t = s" and L: "logged M N b s" using R by (auto simp: logged_rel_def)
  have "replay M N b (hist (s\<lparr>sol := sol s @ cs\<rparr>)) = Inr (puzzle (s\<lparr>sol := sol s @ cs\<rparr>))"
    using L by (auto simp: logged_def)
  from block_apply_syms [OF this, of cs] obtain r where
    r: "block (map (apply_sym M N) cs) (s\<lparr>sol := sol s @ cs\<rparr>) = Some r"
    and c: "case r of
              Done u' \<Rightarrow> hist u' = hist (s\<lparr>sol := sol s @ cs\<rparr>) @ cs \<and>
                replay M N b (hist u') = Inr (puzzle u') \<and>
                out u' = out (s\<lparr>sol := sol s @ cs\<rparr>) \<and>
                sol u' = sol (s\<lparr>sol := sol s @ cs\<rparr>) \<and>
                printout u' = printout (s\<lparr>sol := sol s @ cs\<rparr>)
            | Return u' \<Rightarrow> False
            | Fail e u' \<Rightarrow> True
            | Cut u' \<Rightarrow> False"
    by blast
  have "rel_out (logged_rel M N b) any_fail r r"
    using c L by (cases r) (auto simp: logged_rel_def logged_def any_fail_def)
  moreover have "append_sol M N cs s = Some r" using r by (simp add: append_sol_def)
  ultimately show "\<exists>r. append_sol M N cs s = Some r \<and>
      (unobserved z r \<or>
       (\<exists>r'. append_sol M N cs t = Some r' \<and> rel_out (logged_rel M N b) any_fail r r'))"
    using st by blast
qed

lemma silent_append_sol:
  "sim z (silent_rel M N b) any_fail (append_sol M N cs) (append_sol M N cs)"
proof (rule simI)
  fix s t
  assume R: "silent_rel M N b s t"
  have st: "t = s" and L: "silent M N b s" using R by (auto simp: silent_rel_def)
  have "replay M N b (hist (s\<lparr>sol := sol s @ cs\<rparr>)) = Inr (puzzle (s\<lparr>sol := sol s @ cs\<rparr>))"
    using L by (auto simp: silent_def)
  from block_apply_syms [OF this, of cs] obtain r where
    r: "block (map (apply_sym M N) cs) (s\<lparr>sol := sol s @ cs\<rparr>) = Some r"
    and c: "case r of
              Done u' \<Rightarrow> hist u' = hist (s\<lparr>sol := sol s @ cs\<rparr>) @ cs \<and>
                replay M N b (hist u') = Inr (puzzle u') \<and>
                out u' = out (s\<lparr>sol := sol s @ cs\<rparr>) \<and>
                sol u' = sol (s\<lparr>sol := sol s @ cs\<rparr>) \<and>
                printout u' = printout (s\<lparr>sol := sol s @ cs\<rparr>)
            | Return u' \<Rightarrow> False
            | Fail e u' \<Rightarrow> True
            | Cut u' \<Rightarrow> False"
    by blast
  have "rel_out (silent_rel M N b) any_fail r r"
    using c L by (cases r) (auto simp: silent_rel_def silent_def any_fail_def)
  moreover have "append_sol M N cs s = Some r" using r by (simp add: append_sol_def)
  ultimately show "\<exists>r. append_sol M N cs s = Some r \<and>
      (unobserved z r \<or>
       (\<exists>r'. append_sol M N cs t = Some r' \<and> rel_out (silent_rel M N b) any_fail r r'))"
    using st by blast
qed

lemma logged_report_row: "sim z (logged_rel M N b) any_fail report_row report_row"
  by (auto simp: sim_def logged_rel_def logged_def report_row_def report_def report_fold)

lemma logged_report_end: "sim z (logged_rel M N b) any_fail report_end report_end"
  by (auto simp: sim_def logged_rel_def logged_def report_end_def report_def report_fold Let_def)

lemma silent_report_row: "sim z (silent_rel M N b) any_fail report_row report_row"
  by (auto simp: sim_def silent_rel_def silent_def report_row_def report_def)

lemma silent_report_end: "sim z (silent_rel M N b) any_fail report_end report_end"
  by (auto simp: sim_def silent_rel_def silent_def report_end_def report_def Let_def)

lemma sound_logged: "sound z M N (logged_rel M N b) any_fail"
  by (simp add: sound_def logged_auto_change logged_append_sol logged_report_row
        logged_report_end)
     (simp add: logged_rel_def any_fail_def)

lemma sound_silent: "sound z M N (silent_rel M N b) any_fail"
  by (simp add: sound_def silent_auto_change silent_append_sol silent_report_row
        silent_report_end)
     (simp add: silent_rel_def any_fail_def)

lemma logged_set_printout:
  assumes "c \<noteq> CHR ''N''" and "c \<noteq> CHR ''n''"
  shows "sim z (logged_rel M N b) any_fail (set_printout c) (set_printout c)"
  using assms by (auto simp: sim_def logged_rel_def logged_def set_printout_def)

lemma silent_set_printout:
  assumes "c = CHR ''N'' \<or> c = CHR ''n''"
  shows "sim z (silent_rel M N b) any_fail (set_printout c) (set_printout c)"
  using assms by (auto simp: sim_def silent_rel_def silent_def set_printout_def)

text \<open>\<open>autosolve\<close> sets the flag before it reads it.\<close>

lemma autosolve_sets_printout:
  "autosolve fuel M N c (s\<lparr>printout := x\<rparr>) = autosolve fuel M N c s"
  by (simp add: autosolve_def thn_def set_printout_def)

lemma thn_DoneD:
  "thn f g s = Some (Done s') \<Longrightarrow> \<exists>s1. f s = Some (Done s1) \<and> g s1 = Some (Done s')"
  by (auto simp: thn_def split: option.splits outcome.splits)

lemma block_snoc_DoneD:
  "block (fs @ [g]) s = Some (Done s') \<Longrightarrow> \<exists>s1. g s1 = Some (Done s')"
proof (induction fs arbitrary: s)
  case Nil
  then show ?case by (auto simp: skip_def dest!: thn_DoneD)
next
  case (Cons f fs)
  then show ?case by (auto dest!: thn_DoneD)
qed

lemma autosolve_sol_empty:
  assumes "autosolve fuel M N c s0 = Some (Done s)"
  shows "sol s = []"
proof -
  have "block ([set_printout c, for_ints [0 .. M - 4] (solve_row fuel M N),
          when_c (M \<ge> 3) (last_three fuel M N), solve_2x1 fuel M N, move_h M N (N - 1),
          move_v M N (M - 1), endgame fuel M N] @ [report_end]) s0 = Some (Done s)"
    using assms by (simp add: autosolve_def)
  from block_snoc_DoneD [OF this] show ?thesis
    by (auto simp: report_end_def Let_def)
qed

text \<open>
  Claim C6 as amended.  Take any board \<open>b\<close> and any run of \<open>autosolve\<close> on it that starts
  with an empty \<open>sol\<close> and nothing printed (the state \<open>init b\<close>) and returns.  The moves
  that were applied, replayed on a copy of \<open>b\<close> with the primitive move alone, give exactly
  the final board, and the vector \<open>sol\<close> handed back is empty.  With \<open>printout\<close> off (the
  answer \<open>N\<close> or \<open>n\<close>) no move letter has been printed.  With \<open>printout\<close> on (any other
  answer) the move letters printed, in the order of printing, are exactly the moves that
  were applied, so the printed log replays to the final board.
\<close>

theorem printed_log_replays:
  assumes run: "autosolve fuel M N c (init b) = Some (Done s)"
  shows "sol s = [] \<and> replay M N b (hist s) = Inr (puzzle s) \<and>
         (if c = CHR ''N'' \<or> c = CHR ''n'' then out s = []
          else out s = hist s \<and> replay M N b (out s) = Inr (puzzle s))"
proof -
  have e: "sol s = []" by (rule autosolve_sol_empty [OF run])
  show ?thesis
  proof (cases "c = CHR ''N'' \<or> c = CHR ''n''")
    case True
    let ?s0 = "(init b)\<lparr>printout := False\<rparr>"
    have R: "silent_rel M N b ?s0 ?s0"
      by (simp add: silent_rel_def silent_def init_def)
    have run': "autosolve fuel M N c ?s0 = Some (Done s)"
      using run by (simp add: autosolve_sets_printout)
    from simD [OF sim_autosolve [OF sound_silent fuel_ok_refl silent_set_printout [OF True]]
        R run']
    obtain r' where "rel_out (silent_rel M N b) any_fail (Done s) r'" by auto
    then have "silent M N b s" by (cases r') (auto simp: silent_rel_def)
    then show ?thesis using e True by (auto simp: silent_def)
  next
    case False
    then have c: "c \<noteq> CHR ''N''" "c \<noteq> CHR ''n''" by simp_all
    have R: "logged_rel M N b (init b) (init b)"
      by (simp add: logged_rel_def logged_def init_def)
    from simD [OF sim_autosolve [OF sound_logged fuel_ok_refl logged_set_printout [OF c]]
        R run]
    obtain r' where "rel_out (logged_rel M N b) any_fail (Done s) r'" by auto
    then have "logged M N b s" by (cases r') (auto simp: logged_rel_def)
    then show ?thesis using e False by (auto simp: logged_def)
  qed
qed

theorem printed_log_replays_witness:
  "autosolve 1 2 2 CHR ''y'' (init [1, 2, - 1, 3])
     = Some (Done \<lparr>puzzle = [1, 2, 3, - 1], sol = [], printout = True, step = 1,
                    shown = [[1, 2, 3, - 1], [1, 2, 3, - 1]], out = ''D'', hist = ''D''\<rparr>) \<and>
   replay 2 2 [1, 2, - 1, 3] ''D'' = Inr [1, 2, 3, - 1] \<and>
   autosolve 1 2 2 CHR ''n'' (init [1, 2, - 1, 3])
     = Some (Done \<lparr>puzzle = [1, 2, 3, - 1], sol = [], printout = False, step = 1,
                    shown = [[1, 2, 3, - 1]], out = [], hist = ''D''\<rparr>)"
proof -
  have y: "autosolve 1 2 2 CHR ''y'' (init [1, 2, - 1, 3])
     = Some (Done \<lparr>puzzle = [1, 2, 3, - 1], sol = [], printout = True, step = 1,
                    shown = [[1, 2, 3, - 1], [1, 2, 3, - 1]], out = ''D'', hist = ''D''\<rparr>)"
    by code_simp
  have n: "autosolve 1 2 2 CHR ''n'' (init [1, 2, - 1, 3])
     = Some (Done \<lparr>puzzle = [1, 2, 3, - 1], sol = [], printout = False, step = 1,
                    shown = [[1, 2, 3, - 1]], out = [], hist = ''D''\<rparr>)"
    by code_simp
  show ?thesis
    using y n printed_log_replays [OF y] printed_log_replays [OF n] by simp
qed

text \<open>
  Claim C6 says that for every solvable board the move sequence returned or reported by
  \<open>autosolve\<close> replays to the final board.  With the answer \<open>n\<close> nothing is reported and
  the vector handed back is empty, although a move was applied: replaying either leaves the
  original board, which is not the final one.
\<close>

theorem silent_run_counterexample:
  "can_solve 2 2 [1, 2, - 1, 3] = Inr True \<and>
   (case autosolve 1 2 2 CHR ''n'' (init [1, 2, - 1, 3]) of
      Some (Done s) \<Rightarrow> puzzle s = [1, 2, 3, - 1] \<and> out s = [] \<and> sol s = [] \<and> step s = 1 \<and>
        replay 2 2 [1, 2, - 1, 3] (out s) \<noteq> Inr (puzzle s) \<and>
        replay 2 2 [1, 2, - 1, 3] (sol s) \<noteq> Inr (puzzle s)
    | _ \<Rightarrow> False)"
  by code_simp

section \<open>A solvable board on which the solver never returns\<close>

lemma block_append: "block (fs @ gs) = thn (block fs) (block gs)"
proof (induction fs)
  case Nil
  show ?case by (rule ext) (simp add: thn_def skip_def)
next
  case (Cons f fs)
  show ?case by (rule ext) (simp add: Cons thn_def split: option.splits outcome.splits)
qed

text \<open>A macro applied to a board on which all its moves are legal.\<close>

lemma block_apply_syms_ok:
  assumes "replay M N (puzzle u) cs = Inr p"
  shows "\<exists>u'. block (map (apply_sym M N) cs) u = Some (Done u') \<and> puzzle u' = p \<and>
              sol u' = sol u \<and> hist u' = hist u @ cs \<and> step u' = step u \<and> out u' = out u \<and>
              printout u' = printout u"
  using assms
proof (induction cs arbitrary: u)
  case Nil
  then show ?case by (simp add: skip_def)
next
  case (Cons c cs)
  then obtain q where q: "change M N (puzzle u) c = Inr q" and r: "replay M N q cs = Inr p"
    by (auto split: sum.splits)
  let ?u1 = "render (u\<lparr>puzzle := q, hist := hist u @ [c]\<rparr>)"
  have "replay M N (puzzle ?u1) cs = Inr p" using r by simp
  from Cons.IH [OF this] show ?case using q by (auto simp: thn_apply_sym)
qed

lemma append_sol_ok:
  assumes "replay M N (puzzle s) cs = Inr p"
  shows "\<exists>s'. append_sol M N cs s = Some (Done s') \<and> puzzle s' = p \<and>
              sol s' = sol s @ cs \<and> hist s' = hist s @ cs \<and> step s' = step s \<and>
              out s' = out s \<and> printout s' = printout s"
proof -
  have "replay M N (puzzle (s\<lparr>sol := sol s @ cs\<rparr>)) cs = Inr p" using assms by simp
  from block_apply_syms_ok [OF this] show ?thesis by (auto simp: append_sol_def)
qed

text \<open>The three boards between which the last loop of \<open>autosolve\<close> turns on the
  input below: the fixed macro \<open>AWDS\<close> never touches cell 3, which holds tile 5.\<close>

definition stuck_boards :: "board set" where
  "stuck_boards = {[1, 2, 4, 5, 3, - 1], [1, 4, 3, 5, 2, - 1], [1, 3, 2, 5, 4, - 1]}"

lemma stuck_step:
  assumes "p \<in> stuck_boards"
  shows "\<exists>q \<in> stuck_boards. replay 2 3 p ''AWDS'' = Inr q"
proof -
  have "replay 2 3 [1, 2, 4, 5, 3, - 1] ''AWDS'' = Inr [1, 4, 3, 5, 2, - 1]" by code_simp
  moreover have "replay 2 3 [1, 4, 3, 5, 2, - 1] ''AWDS'' = Inr [1, 3, 2, 5, 4, - 1]" by code_simp
  moreover have "replay 2 3 [1, 3, 2, 5, 4, - 1] ''AWDS'' = Inr [1, 2, 4, 5, 3, - 1]" by code_simp
  ultimately show ?thesis using assms unfolding stuck_boards_def by auto
qed

lemma stuck_unsolved:
  assumes "puzzle s \<in> stuck_boards"
  shows "with_unsolved 2 3 k s = k True s"
  using assms unfolding stuck_boards_def
  by (auto simp: with_unsolved_def with_rd_def rd_def)

lemma endgame_stuck:
  assumes "puzzle s \<in> stuck_boards"
  shows "\<exists>t. endgame fuel 2 3 s = Some (Cut t) \<and> puzzle t \<in> stuck_boards \<and>
             hist t = hist s @ concat (replicate fuel ''AWDS'')"
  using assms
proof (induction fuel arbitrary: s)
  case 0
  then show ?case by (simp add: stuck_unsolved cut_def)
next
  case (Suc fuel)
  from stuck_step [OF Suc.prems] obtain q where q: "q \<in> stuck_boards"
    and r: "replay 2 3 (puzzle s) ''AWDS'' = Inr q" by blast
  from append_sol_ok [OF r] obtain s' where
    s': "append_sol 2 3 ''AWDS'' s = Some (Done s')" "puzzle s' = q"
    "hist s' = hist s @ ''AWDS''" by blast
  from Suc.IH [of s'] q s'(2) obtain t where
    "endgame fuel 2 3 s' = Some (Cut t)" "puzzle t \<in> stuck_boards"
    "hist t = hist s' @ concat (replicate fuel ''AWDS'')" by auto
  then show ?case using Suc.prems s' by (simp add: stuck_unsolved thn_def)
qed

text \<open>The statements of \<open>autosolve\<close> before its last loop, under a name.\<close>

definition approach :: "nat \<Rightarrow> int \<Rightarrow> int \<Rightarrow> char \<Rightarrow> act" where
  "approach fuel M N c =
     block [set_printout c, for_ints [0 .. M - 4] (solve_row fuel M N),
            when_c (M \<ge> 3) (last_three fuel M N), solve_2x1 fuel M N,
            move_h M N (N - 1), move_v M N (M - 1)]"

lemma autosolve_approach:
  "autosolve fuel M N c = thn (approach fuel M N c) (block [endgame fuel M N, report_end])"
  unfolding autosolve_def approach_def block_append [symmetric] by simp

lemma sim_approach:
  assumes "sound z M N R Q" and "fuel_ok z f g"
    and "sim z R Q (set_printout c) (set_printout c')"
  shows "sim z R Q (approach f M N c) (approach g M N c')"
  unfolding approach_def
  by (intro sim_intros sim_solve_row sim_last_three sim_solve_2x1 sim_move_h sim_move_v
        assms(2,3); rule assms(1))

lemma approach_any:
  assumes "approach 0 M N CHR ''y'' (init b) = Some (Done s)"
  shows "\<exists>t. approach fuel M N c (init b) = Some (Done t) \<and> puzzle t = puzzle s \<and>
             hist t = hist s"
proof -
  have R: "same_core (init b) (init b)" by (simp add: same_core_def)
  from simD [OF sim_approach [OF sound_core fuel_ok_refl core_set_printout, of True] R assms]
  obtain r' where r': "approach 0 M N c (init b) = Some r'"
    and rel: "rel_out same_core same_core_fail (Done s) r'" by auto
  from rel obtain t where t: "r' = Done t" "same_core s t" by (cases r') auto
  have "sim False (=) same_fail (approach 0 M N c) (approach fuel M N c)"
    by (rule sim_approach [OF sound_eq fuel_ok_le set_printout_eq]) simp
  from simD [OF this refl r'] have "approach fuel M N c (init b) = Some (Done t)"
    using t(1) by (simp add: rel_out_eq)
  then show ?thesis using t(2) by (auto simp: same_core_def)
qed

lemma stuck_approach:
  "(case approach 0 2 3 CHR ''y'' (init [2, 4, - 1, 1, 5, 3]) of
      Some (Done s) \<Rightarrow> puzzle s = [1, 2, 4, 5, 3, - 1] \<and> hist s = ''ASWASDD''
    | _ \<Rightarrow> False)"
  by code_simp

text \<open>
  Claim C1 says that \<open>autosolve\<close> terminates with the canonical board on every solvable
  board.  On the solvable 2\<times>3 board \<open>2 4 _ / 1 5 3\<close> it does not return, whatever the fuel
  and the answer: \<open>solve_2x1\<close> puts tile 5 instead of tile 4 under tile 1 (walking the
  blank to column \<open>i+1\<close> pushes tile 4 aside before its position is used), and the last
  loop then turns the other three tiles for ever.  With fuel for \<open>fuel\<close> iterations the
  run is cut off in the last loop, after the seven moves \<open>ASWASDD\<close> and \<open>fuel\<close> times the
  macro \<open>AWDS\<close>, on one of three boards that all have tile 5 in cell 3.  All moves of this
  run are legal.
\<close>

theorem autosolve_never_returns:
  "perm_invariant 2 3 [2, 4, - 1, 1, 5, 3] \<and> can_solve 2 3 [2, 4, - 1, 1, 5, 3] = Inr True \<and>
   (\<exists>t. autosolve fuel 2 3 c (init [2, 4, - 1, 1, 5, 3]) = Some (Cut t) \<and>
        puzzle t \<in> stuck_boards \<and>
        hist t = ''ASWASDD'' @ concat (replicate fuel ''AWDS''))"
proof -
  have pi: "perm_invariant 2 3 [2, 4, - 1, 1, 5, 3]"
    by (auto simp: perm_invariant_def upto.simps)
  have cs: "can_solve 2 3 [2, 4, - 1, 1, 5, 3] = Inr True" by code_simp
  from stuck_approach obtain s where
    "approach 0 2 3 CHR ''y'' (init [2, 4, - 1, 1, 5, 3]) = Some (Done s)"
    "puzzle s = [1, 2, 4, 5, 3, - 1]" "hist s = ''ASWASDD''"
    by (auto split: option.splits outcome.splits)
  from approach_any [OF this(1), of fuel c] this(2,3) obtain u where
    u: "approach fuel 2 3 c (init [2, 4, - 1, 1, 5, 3]) = Some (Done u)"
    "puzzle u = [1, 2, 4, 5, 3, - 1]" "hist u = ''ASWASDD''" by auto
  have "puzzle u \<in> stuck_boards" by (simp add: u(2) stuck_boards_def)
  from endgame_stuck [OF this, of fuel] obtain t where
    t: "endgame fuel 2 3 u = Some (Cut t)" "puzzle t \<in> stuck_boards"
    "hist t = hist u @ concat (replicate fuel ''AWDS'')" by blast
  have "autosolve fuel 2 3 c (init [2, 4, - 1, 1, 5, 3]) = Some (Cut t)"
    using u(1) t(1) by (simp add: autosolve_approach thn_def)
  with pi cs t(2,3) u(3) show ?thesis by simp
qed

section \<open>A placed cell that a later call of \<open>move\<close> disturbs\<close>

text \<open>
  Claim C5 says that cells already placed in the leading columns of the row being solved
  are never mutated by later calls of \<open>move\<close> for that row.  On the solvable 3\<times>4 board
  \<open>1 _ 2 4 / 3 5 9 8 / 7 10 6 11\<close> the first statements of the last-three-rows phase
  (row \<open>M-3 = 0\<close>) place tiles 1 and 2 in cells 0 and 1 and tile 4 in cell 2 with the six
  moves \<open>SWDSWD\<close>.  Tile 3 is then found at \<open>(1, 0)\<close>, so the next statement calls
  \<open>move(1, 0, M-2, N-2)\<close>; that call starts with \<open>move_h\<close> while the blank is still in
  row 0 and drags it through cells 2 and 1: after the moves \<open>AA\<close> cell 1 holds the blank,
  and when the call returns it holds tile 5.  The run never recovers.
\<close>

theorem placed_cell_disturbed:
  "can_solve 3 4 [1, - 1, 2, 4, 3, 5, 9, 8, 7, 10, 6, 11] = Inr True \<and>
   (case block [for_ints [0 .. 4 - 3] (\<lambda>j. place 1 3 4 ((3 - 3) * 4 + j + 1) (3 - 3) j),
                place 1 3 4 ((3 - 3 + 1) * 4) (3 - 3) (4 - 2)]
           (init [1, - 1, 2, 4, 3, 5, 9, 8, 7, 10, 6, 11]) of
      Some (Done s1) \<Rightarrow>
        puzzle s1 = [1, 2, 4, - 1, 3, 5, 9, 8, 7, 10, 6, 11] \<and> hist s1 = ''SWDSWD'' \<and>
        find_val 3 4 (puzzle s1) ((3 - 3 + 1) * 4 - 1) = Inr (1 * 4 + 0) \<and>
        (case move 1 0 (3 - 2) (4 - 2) 3 4 s1 of
           Some (Done s2) \<Rightarrow>
             puzzle s2 = [1, 5, 2, 4, 7, - 1, 3, 8, 10, 6, 9, 11] \<and>
             hist s2 = ''SWDSWDAASASDDWA''
         | _ \<Rightarrow> False)
    | _ \<Rightarrow> False) \<and>
   replay 3 4 [1, - 1, 2, 4, 3, 5, 9, 8, 7, 10, 6, 11] ''SWDSWDAA''
     = Inr [1, - 1, 2, 4, 3, 5, 9, 8, 7, 10, 6, 11] \<and>
   (case autosolve 1 3 4 CHR ''y'' (init [1, - 1, 2, 4, 3, 5, 9, 8, 7, 10, 6, 11]) of
      Some (Fail e s) \<Rightarrow>
        e = OutOfBounds \<and> hist s = ''SWDSWDAASASDDWASDDWWASSAWASDWSDWAASDAW'' \<and>
        puzzle s = [1, 5, 3, 2, - 1, 10, 7, 4, 6, 9, 11, 8]
    | _ \<Rightarrow> False)"
  by code_simp

section \<open>Legal moves keep the value of the solvability test\<close>

lemma inv_with_append: "inv_with x (ys @ zs) = inv_with x ys + inv_with x zs"
  by (simp add: inv_with_def)

lemma inv_with_blank [simp]: "inv_with (- 1) ys = 0" "inv_with x (- 1 # ys) = inv_with x ys"
  by (simp_all add: inv_with_def)

lemma inversions_drop_blank: "inversions (xs @ - 1 # ys) = inversions (xs @ ys)"
  by (induction xs) (simp_all add: inv_with_append)

lemma inversions_jump:
  assumes "t \<noteq> - 1" and "t \<notin> set zs" and "- 1 \<notin> set zs"
  shows "even (inversions (xs @ t # zs @ ys))
         \<longleftrightarrow> (even (inversions (xs @ zs @ t # ys)) \<longleftrightarrow> even (length zs))"
  using assms
proof (induction zs arbitrary: xs)
  case Nil
  then show ?case by simp
next
  case (Cons z zs)
  have sw: "even (inversions (xs @ z # t # zs @ ys)) \<longleftrightarrow> odd (inversions (xs @ t # z # zs @ ys))"
    using inversions_adjacent_swap [of t z xs "zs @ ys"] Cons.prems by auto
  have ih: "even (inversions ((xs @ [z]) @ t # zs @ ys))
         \<longleftrightarrow> (even (inversions ((xs @ [z]) @ zs @ t # ys)) \<longleftrightarrow> even (length zs))"
    using Cons.IH [of "xs @ [z]"] Cons.prems by simp
  show ?case using sw ih by auto
qed

text \<open>Swapping two cells of a list, seen as a re-arrangement of its segments.\<close>

lemma split_two:
  assumes "i < j" and "j < length p"
  shows "p = take i p @ p ! i # take (j - Suc i) (drop (Suc i) p) @ p ! j # drop (Suc j) p"
proof -
  have "p = take i p @ p ! i # drop (Suc i) p"
    using assms by (simp add: id_take_nth_drop)
  also have "drop (Suc i) p = take (j - Suc i) (drop (Suc i) p) @ drop (j - Suc i) (drop (Suc i) p)"
    by (rule append_take_drop_id [symmetric])
  also have "drop (j - Suc i) (drop (Suc i) p) = drop j p" using assms by simp
  also have "drop j p = p ! j # drop (Suc j) p" using assms by (simp add: Cons_nth_drop_Suc)
  finally show ?thesis .
qed

lemma update_two:
  "(A @ x # m @ y # B)[length A := y', Suc (length A + length m) := x'] = A @ y' # m @ x' # B"
  by (simp add: list_update_append)

lemma swap_cells_split:
  assumes "i < j" and "j < length p"
  shows "swap_cells p i j
         = take i p @ p ! j # take (j - Suc i) (drop (Suc i) p) @ p ! i # drop (Suc j) p"
proof -
  let ?A = "take i p" and ?m = "take (j - Suc i) (drop (Suc i) p)" and ?B = "drop (Suc j) p"
  have lA: "length ?A = i" and lm: "Suc (i + length ?m) = j" using assms by auto
  have "swap_cells p i j = p[i := p ! j, j := p ! i]" by (simp add: swap_cells_def)
  also have "\<dots> = (?A @ p ! i # ?m @ p ! j # ?B)[i := p ! j, j := p ! i]"
    using split_two [OF assms] by simp
  also have "\<dots> = (?A @ p ! i # ?m @ p ! j # ?B)
                     [length ?A := p ! j, Suc (length ?A + length ?m) := p ! i]"
    by (simp only: lA lm)
  also have "\<dots> = ?A @ p ! j # ?m @ p ! i # ?B" by (rule update_two)
  finally show ?thesis .
qed

lemma swap_cells_sym: "swap_cells p i j = swap_cells p j i"
  unfolding swap_cells_def
  by (cases "i = j") (simp_all add: list_update_swap)


definition wf_board :: "int \<Rightarrow> int \<Rightarrow> board \<Rightarrow> bool" where
  "wf_board M N p \<longleftrightarrow> length p = nat (M * N) \<and> distinct p \<and> - 1 \<in> set p"

lemma perm_invariant_wf: "perm_invariant M N p \<Longrightarrow> wf_board M N p"
  by (simp add: perm_invariant_def wf_board_def)

lemma blank_pos_eq:
  assumes "distinct p" and "k < length p" and "p ! k = - 1"
  shows "blank_pos p = k"
proof -
  have in_set: "- 1 \<in> set p" using assms(2,3) by (metis nth_mem)
  have "blank_pos p < length p" "p ! blank_pos p = - 1"
    using blank_pos_less [OF in_set] blank_pos_nth [OF in_set] by simp_all
  then show ?thesis using assms by (metis nth_eq_iff_index_eq)
qed

lemma swap_cells_props:
  assumes "i < length p" and "j < length p"
  shows "length (swap_cells p i j) = length p"
    and "set (swap_cells p i j) = set p"
    and "swap_cells p i j ! i = p ! j"
    and "swap_cells p i j ! j = p ! i"
    and "k \<noteq> i \<Longrightarrow> k \<noteq> j \<Longrightarrow> swap_cells p i j ! k = p ! k"
  using assms
  by (auto simp: swap_cells_def nth_list_update simp del: set_swap)
     (use set_swap [of i p j] in auto)+

lemma swap_cells_distinct:
  assumes "i < length p" and "j < length p" and "distinct p"
  shows "distinct (swap_cells p i j)"
  using assms by (simp add: swap_cells_def distinct_swap)

text \<open>The blank changes place with the cell \<open>k\<close>: the parity of the inversion count
  changes with the number of cells between them.\<close>

lemma swap_blank_down:
  assumes wf: "wf_board M N p" and b: "b = blank_pos p" and k: "b < k" "k < length p"
  shows "even (inversions (swap_cells p b k)) \<longleftrightarrow> (even (inversions p) \<longleftrightarrow> even (k - Suc b))"
proof -
  let ?A = "take b p" and ?m = "take (k - Suc b) (drop (Suc b) p)" and ?B = "drop (Suc k) p"
  have d: "distinct p" and bl: "- 1 \<in> set p" using wf by (simp_all add: wf_board_def)
  have pb: "p ! b = - 1" using blank_pos_nth [OF bl] b by simp
  have p: "p = ?A @ - 1 # ?m @ p ! k # ?B" using split_two [OF k] pb by simp
  have q: "swap_cells p b k = ?A @ p ! k # ?m @ - 1 # ?B"
    using swap_cells_split [OF k] pb by simp
  have dp: "distinct (?A @ - 1 # ?m @ p ! k # ?B)" using d p by simp
  have t: "p ! k \<noteq> - 1" "p ! k \<notin> set ?m" "- 1 \<notin> set ?m"
    using dp by auto
  have lm: "length ?m = k - Suc b" using k by simp
  have "inversions p = inversions (?A @ ?m @ p ! k # ?B)"
    using inversions_drop_blank [of ?A "?m @ p ! k # ?B"] p by simp
  moreover have "inversions (swap_cells p b k) = inversions (?A @ p ! k # ?m @ ?B)"
    using inversions_drop_blank [of "?A @ p ! k # ?m" ?B] q by simp
  ultimately show ?thesis
    using inversions_jump [OF t, of ?A ?B] lm by simp
qed

lemma swap_blank_up:
  assumes wf: "wf_board M N p" and b: "b = blank_pos p" and k: "k < b"
  shows "even (inversions (swap_cells p b k)) \<longleftrightarrow> (even (inversions p) \<longleftrightarrow> even (b - Suc k))"
proof -
  let ?A = "take k p" and ?m = "take (b - Suc k) (drop (Suc k) p)" and ?B = "drop (Suc b) p"
  have d: "distinct p" and bl: "- 1 \<in> set p" using wf by (simp_all add: wf_board_def)
  have bk: "b < length p" using blank_pos_less [OF bl] b by simp
  have pb: "p ! b = - 1" using blank_pos_nth [OF bl] b by simp
  have p: "p = ?A @ p ! k # ?m @ - 1 # ?B" using split_two [OF k bk] pb by simp
  have q: "swap_cells p b k = ?A @ - 1 # ?m @ p ! k # ?B"
    using swap_cells_split [OF k bk] pb by (simp add: swap_cells_sym [of p b k])
  have dp: "distinct (?A @ p ! k # ?m @ - 1 # ?B)" using d p by simp
  have t: "p ! k \<noteq> - 1" "p ! k \<notin> set ?m" "- 1 \<notin> set ?m"
    using dp by auto
  have lm: "length ?m = b - Suc k" using k bk by simp
  have "inversions p = inversions (?A @ p ! k # ?m @ ?B)"
    using inversions_drop_blank [of "?A @ p ! k # ?m" ?B] p by simp
  moreover have "inversions (swap_cells p b k) = inversions (?A @ ?m @ p ! k # ?B)"
    using inversions_drop_blank [of ?A "?m @ p ! k # ?B"] q by simp
  ultimately show ?thesis
    using inversions_jump [OF t, of ?A ?B] lm by auto
qed

lemma swap_blank_wf:
  assumes wf: "wf_board M N p" and b: "b = blank_pos p" and k: "k < length p"
  shows "wf_board M N (swap_cells p b k)" and "blank_pos (swap_cells p b k) = k"
    and "set (swap_cells p b k) = set p"
proof -
  have d: "distinct p" and bl: "- 1 \<in> set p" and len: "length p = nat (M * N)"
    using wf by (simp_all add: wf_board_def)
  have bk: "b < length p" using blank_pos_less [OF bl] b by simp
  have pb: "p ! b = - 1" using blank_pos_nth [OF bl] b by simp
  show wf': "wf_board M N (swap_cells p b k)"
    using swap_cells_distinct [OF bk k d] swap_cells_props(1,2) [OF bk k] len bl
    by (simp add: wf_board_def)
  show "blank_pos (swap_cells p b k) = k"
  proof (rule blank_pos_eq)
    show "distinct (swap_cells p b k)" using wf' by (simp add: wf_board_def)
    show "k < length (swap_cells p b k)" using swap_cells_props(1) [OF bk k] k by simp
    show "swap_cells p b k ! k = - 1" using swap_cells_props(4) [OF bk k] pb by simp
  qed
  show "set (swap_cells p b k) = set p" by (rule swap_cells_props(2) [OF bk k])
qed


subsection \<open>Rows and columns of neighbouring cells\<close>

lemma int_split: "(x::int) = N * (x div N) + x mod N"
  by simp

lemma row_left: "0 < N \<Longrightarrow> 0 < x mod N \<Longrightarrow> ((x::int) - 1) div N = x div N"
proof (rule int_div_pos_eq [where r = "x mod N - 1"])
  assume "0 < N" "0 < x mod N"
  show "x - 1 = N * (x div N) + (x mod N - 1)" using int_split [of x N] by linarith
  show "0 \<le> x mod N - 1" using \<open>0 < x mod N\<close> by simp
  show "x mod N - 1 < N" using pos_mod_bound [OF \<open>0 < N\<close>, of x] by linarith
qed

lemma row_right: "0 < N \<Longrightarrow> x mod N < N - 1 \<Longrightarrow> ((x::int) + 1) div N = x div N"
proof (rule int_div_pos_eq [where r = "x mod N + 1"])
  assume "0 < N" "x mod N < N - 1"
  show "x + 1 = N * (x div N) + (x mod N + 1)" using int_split [of x N] by linarith
  show "0 \<le> x mod N + 1" using pos_mod_sign [OF \<open>0 < N\<close>, of x] by linarith
  show "x mod N + 1 < N" using \<open>x mod N < N - 1\<close> by linarith
qed

lemma row_up: "0 < N \<Longrightarrow> ((x::int) - N) div N = x div N - 1"
proof (rule int_div_pos_eq [where r = "x mod N"])
  assume "0 < N"
  show "x - N = N * (x div N - 1) + x mod N"
    using int_split [of x N] by (simp add: algebra_simps)
  show "0 \<le> x mod N" using pos_mod_sign [OF \<open>0 < N\<close>, of x] by linarith
  show "x mod N < N" using pos_mod_bound [OF \<open>0 < N\<close>, of x] by linarith
qed

lemma row_down: "0 < N \<Longrightarrow> ((x::int) + N) div N = x div N + 1"
proof (rule int_div_pos_eq [where r = "x mod N"])
  assume "0 < N"
  show "x + N = N * (x div N + 1) + x mod N"
    using int_split [of x N] by (simp add: algebra_simps)
  show "0 \<le> x mod N" using pos_mod_sign [OF \<open>0 < N\<close>, of x] by linarith
  show "x mod N < N" using pos_mod_bound [OF \<open>0 < N\<close>, of x] by linarith
qed

lemma div_less_rows:
  assumes "0 < N" and "(x::int) < M * N"
  shows "x div N < M"
proof (rule ccontr)
  assume "\<not> x div N < M"
  then have "N * M \<le> N * (x div N)" using assms(1) by (intro mult_left_mono) simp_all
  moreover have "0 \<le> x mod N" using pos_mod_sign [OF assms(1), of x] by linarith
  ultimately have "N * M \<le> x" using int_split [of x N] by linarith
  then show False using assms(2) by (simp add: mult.commute)
qed

lemma bound_down:
  assumes "0 < N" and "(x::int) div N < M - 1"
  shows "x + N < M * N"
proof -
  have "N * (x div N + 1) \<le> N * (M - 1)" using assms by (intro mult_left_mono) simp_all
  then have "N * (x div N) + N \<le> N * M - N" by (simp add: algebra_simps)
  moreover have "x mod N < N" using pos_mod_bound [OF assms(1), of x] by linarith
  ultimately have "x + N < N * M" using int_split [of x N] by linarith
  then show ?thesis by (simp add: mult.commute)
qed

lemma bound_right:
  assumes "0 < N" and "(x::int) < M * N" and "x mod N < N - 1"
  shows "x + 1 < M * N"
proof -
  have "x div N + 1 \<le> M" using div_less_rows [OF assms(1,2)] by simp
  then have "N * (x div N + 1) \<le> N * M" using assms(1) by (intro mult_left_mono) simp_all
  then have "N * (x div N) + N \<le> N * M" by (simp add: algebra_simps)
  then have "x + 1 < N * M" using int_split [of x N] assms(3) by linarith
  then show ?thesis by (simp add: mult.commute)
qed

lemma bound_up: "0 < N \<Longrightarrow> 0 < (x::int) div N \<Longrightarrow> N \<le> x"
  using pos_imp_zdiv_pos_iff by simp

subsection \<open>What a legal move does\<close>

lemma change_swap:
  assumes wf: "wf_board M N p" and N: "0 < N" and ch: "change M N p c = Inr q"
  shows "\<exists>k. k < length p \<and> k \<noteq> blank_pos p \<and> q = swap_cells p (blank_pos p) k \<and>
             (even (if k < blank_pos p then blank_pos p - Suc k else k - Suc (blank_pos p))
              \<longleftrightarrow> (odd N \<or> even (int k div N - int (blank_pos p) div N)))"
proof -
  define b where "b = blank_pos p"
  have len: "length p = nat (M * N)" and bl: "- 1 \<in> set p"
    using wf by (simp_all add: wf_board_def)
  have bk: "b < length p" using blank_pos_less [OF bl] b_def by simp
  have bMN: "int b < M * N" using bk len by linarith
  have fb: "find_val M N p (- 1) = Inr (int b)" using find_blank [OF len bl] b_def by simp
  have sd: "int b sdiv N = int b div N" "int b smod N = int b mod N"
    using N by (simp_all add: sdiv_nonneg smod_nonneg)
  have nN: "int (nat N) = N" using N by simp
  consider (W) "c = CHR ''W''" "0 < int b div N" "q = swap_cells p b (nat (int b - N))"
    | (S) "c = CHR ''S''" "int b div N < M - 1" "q = swap_cells p b (nat (int b + N))"
    | (A) "c = CHR ''A''" "0 < int b mod N" "q = swap_cells p b (nat (int b - 1))"
    | (D) "c = CHR ''D''" "int b mod N < N - 1" "q = swap_cells p b (nat (int b + 1))"
    using ch fb sd by (auto simp: change_def Let_def split: if_splits)
  then show ?thesis
  proof cases
    case W
    let ?k = "nat (int b - N)"
    have ge: "N \<le> int b" using bound_up [OF N W(2)] .
    have k: "int ?k = int b - N" using ge by simp
    have kb: "?k < b" using k N by linarith
    have d: "int (b - Suc ?k) = N - 1" using k kb by linarith
    have "even (int (b - Suc ?k)) \<longleftrightarrow> odd N" unfolding d by simp
    then have par: "even (b - Suc ?k) \<longleftrightarrow> odd N" by (simp only: even_of_nat)
    have row: "int ?k div N - int b div N = - 1" using row_up [OF N, of "int b"] k by simp
    show ?thesis
      using kb bk W(3) par row unfolding b_def [symmetric]
      by (intro exI [of _ ?k]) auto
  next
    case S
    let ?k = "nat (int b + N)"
    have k: "int ?k = int b + N" using N by simp
    have kb: "b < ?k" using k N by linarith
    have klen: "?k < length p" using bound_down [OF N S(2)] len k by linarith
    have d: "int (?k - Suc b) = N - 1" using k kb by linarith
    have "even (int (?k - Suc b)) \<longleftrightarrow> odd N" unfolding d by simp
    then have par: "even (?k - Suc b) \<longleftrightarrow> odd N" by (simp only: even_of_nat)
    have row: "int ?k div N - int b div N = 1" using row_down [OF N, of "int b"] k by simp
    show ?thesis
      using kb klen S(3) par row unfolding b_def [symmetric]
      by (intro exI [of _ ?k]) auto
  next
    case A
    let ?k = "nat (int b - 1)"
    have b0: "0 < b" using A(2) by (cases b) auto
    have k: "int ?k = int b - 1" using b0 by simp
    have kb: "?k < b" "b - Suc ?k = 0" using k by linarith+
    have row: "int ?k div N - int b div N = 0" using row_left [OF N A(2)] k by simp
    show ?thesis
      using kb bk A(3) row unfolding b_def [symmetric]
      by (intro exI [of _ ?k]) auto
  next
    case D
    let ?k = "nat (int b + 1)"
    have k: "int ?k = int b + 1" by simp
    have kb: "b < ?k" "?k - Suc b = 0" using k by linarith+
    have klen: "?k < length p" using bound_right [OF N bMN D(2)] len k by linarith
    have row: "int ?k div N - int b div N = 0" using row_right [OF N D(2)] k by simp
    show ?thesis
      using kb klen D(3) row unfolding b_def [symmetric]
      by (intro exI [of _ ?k]) auto
  qed
qed


lemma change_keeps:
  assumes wf: "wf_board M N p" and N: "0 < N" and ch: "change M N p c = Inr q"
  shows "wf_board M N q" and "set q = set p" and "can_solve M N q = can_solve M N p"
proof -
  define b where "b = blank_pos p"
  from change_swap [OF wf N ch] obtain k where k: "k < length p" "k \<noteq> b"
    and q: "q = swap_cells p b k"
    and par: "even (if k < b then b - Suc k else k - Suc b)
              \<longleftrightarrow> (odd N \<or> even (int k div N - int b div N))"
    unfolding b_def by blast
  show wfq: "wf_board M N q" and "set q = set p"
    using swap_blank_wf(1,3) [OF wf b_def k(1)] q by simp_all
  have bq: "blank_pos q = k" using swap_blank_wf(2) [OF wf b_def k(1)] q by simp
  have inv: "even (inversions q)
             \<longleftrightarrow> (even (inversions p) \<longleftrightarrow> even (if k < b then b - Suc k else k - Suc b))"
  proof (cases "k < b")
    case True
    with swap_blank_up [OF wf b_def True] q show ?thesis by simp
  next
    case False
    then have "b < k" using k(2) by simp
    with swap_blank_down [OF wf b_def this k(1)] q False show ?thesis by simp
  qed
  have fp: "can_solve M N p =
           Inr (if odd N then even (inversions p)
                else even (int (inversions p) + (M - 1 - int b div N)))"
    using can_solve_formula [of p M N] wf N by (simp add: wf_board_def blank_row_def b_def)
  have fq: "can_solve M N q =
           Inr (if odd N then even (inversions q)
                else even (int (inversions q) + (M - 1 - int k div N)))"
    using can_solve_formula [of q M N] wfq N by (simp add: wf_board_def blank_row_def bq)
  show "can_solve M N q = can_solve M N p"
    unfolding fp fq using inv par by auto
qed

lemma replay_keeps:
  assumes "wf_board M N p" and "0 < N" and "replay M N p cs = Inr q"
  shows "wf_board M N q \<and> set q = set p \<and> can_solve M N q = can_solve M N p"
  using assms
proof (induction cs arbitrary: p)
  case Nil
  then show ?case by simp
next
  case (Cons c cs)
  then obtain p' where p': "change M N p c = Inr p'" and r: "replay M N p' cs = Inr q"
    by (auto split: sum.splits)
  from change_keeps [OF Cons.prems(1,2) p'] Cons.IH [OF _ Cons.prems(2) r]
  show ?case by simp
qed

section \<open>The last loop of \<open>autosolve\<close>\<close>

text \<open>The canonical solved board.\<close>

definition solved_board :: "int \<Rightarrow> int \<Rightarrow> board" where
  "solved_board M N = [1 .. M * N - 1] @ [- 1]"

text \<open>The situation at the last loop as the claim describes it: the blank is in the
  bottom-right corner and every cell outside the bottom-right 2\<times>2 block holds its target
  value.\<close>

definition block_state :: "int \<Rightarrow> int \<Rightarrow> board \<Rightarrow> bool" where
  "block_state M N p \<longleftrightarrow>
     perm_invariant M N p \<and> p ! nat (M * N - 1) = - 1 \<and>
     (\<forall>k. 0 \<le> k \<and> k < M * N - 1 \<and> k \<noteq> (M - 1) * N - 2 \<and> k \<noteq> (M - 1) * N - 1 \<and> k \<noteq> M * N - 2
          \<longrightarrow> p ! nat k = k + 1)"

text \<open>One application of the macro turns the three tiles of the block.\<close>

definition turn :: "int \<Rightarrow> int \<Rightarrow> board \<Rightarrow> board" where
  "turn M N p =
     p[nat ((M - 1) * N - 2) := p ! nat ((M - 1) * N - 1),
       nat ((M - 1) * N - 1) := p ! nat (M * N - 2),
       nat (M * N - 2) := p ! nat ((M - 1) * N - 2)]"

lemma change_at:
  assumes wf: "wf_board M N p" and N: "0 < N" and x: "blank_pos p = x"
  shows "change M N p c =
          (if c = CHR ''W'' then
             (if 0 < int x div N then Inr (swap_cells p x (nat (int x - N))) else Inl OutOfBounds)
           else if c = CHR ''S'' then
             (if int x div N < M - 1 then Inr (swap_cells p x (nat (int x + N))) else Inl OutOfBounds)
           else if c = CHR ''A'' then
             (if 0 < int x mod N then Inr (swap_cells p x (nat (int x - 1))) else Inl OutOfBounds)
           else if c = CHR ''D'' then
             (if int x mod N < N - 1 then Inr (swap_cells p x (nat (int x + 1))) else Inl OutOfBounds)
           else Inl OutOfBounds)"
proof -
  have len: "length p = nat (M * N)" and bl: "- 1 \<in> set p"
    using wf by (simp_all add: wf_board_def)
  have fb: "find_val M N p (- 1) = Inr (int x)" using find_blank [OF len bl] x by simp
  show ?thesis
    using N by (simp add: change_def fb Let_def sdiv_nonneg smod_nonneg)
qed

lemma block_cells:
  assumes M: "2 \<le> M" and N: "2 \<le> (N::int)"
  shows "0 \<le> (M - 1) * N - 2" and "M * N - 2 - N = (M - 1) * N - 2"
    and "(M - 1) * N - 1 + N = M * N - 1" and "(M - 1) * N - 1 < M * N - 2"
    and "(M * N - 1) mod N = N - 1" and "(M * N - 2) div N = M - 1"
    and "((M - 1) * N - 2) mod N = N - 2" and "((M - 1) * N - 1) div N = M - 2"
proof -
  have "1 * 2 \<le> (M - 1) * N" using M N by (intro mult_mono) simp_all
  then show "0 \<le> (M - 1) * N - 2" by simp
  show "M * N - 2 - N = (M - 1) * N - 2" by (simp add: algebra_simps)
  show "(M - 1) * N - 1 + N = M * N - 1" by (simp add: algebra_simps)
  show "(M - 1) * N - 1 < M * N - 2" using N by (simp add: algebra_simps)
  show "(M * N - 1) mod N = N - 1"
    by (rule int_mod_pos_eq [where q = "M - 1"]) (use N in \<open>simp_all add: algebra_simps\<close>)
  show "(M * N - 2) div N = M - 1"
    by (rule int_div_pos_eq [where r = "N - 2"]) (use N in \<open>simp_all add: algebra_simps\<close>)
  show "((M - 1) * N - 2) mod N = N - 2"
    by (rule int_mod_pos_eq [where q = "M - 2"]) (use N in \<open>simp_all add: algebra_simps\<close>)
  show "((M - 1) * N - 1) div N = M - 2"
    by (rule int_div_pos_eq [where r = "N - 1"]) (use N in \<open>simp_all add: algebra_simps\<close>)
qed


lemma macro_turn:
  assumes M: "2 \<le> M" and N: "2 \<le> N" and wf: "wf_board M N p"
    and corner: "p ! nat (M * N - 1) = - 1"
  shows "replay M N p ''AWDS'' = Inr (turn M N p)"
proof -
  define a b c L where "a = nat ((M - 1) * N - 2)" and "b = nat ((M - 1) * N - 1)"
    and "c = nat (M * N - 2)" and "L = nat (M * N - 1)"
  note bc = block_cells [OF M N]
  have N0: "0 < N" using N by simp
  have ia: "int a = (M - 1) * N - 2" and ib: "int b = (M - 1) * N - 1"
    and ic: "int c = M * N - 2" and iL: "int L = M * N - 1"
    using bc(1) bc(4) by (simp_all add: a_def b_def c_def L_def)
  have len: "length p = nat (M * N)" and dist: "distinct p"
    using wf by (simp_all add: wf_board_def)
  have ilen: "int (length p) = M * N" using len iL by simp
  have ord: "a < b" "b < c" "c < L" "L < length p"
    using ia ib ic iL ilen bc(4) by linarith+
  have nats: "nat (int L - 1) = c" "nat (int c - N) = a" "nat (int a + 1) = b"
    "nat (int b + N) = L"
    using ia ib ic iL bc(2,3) by simp_all
  have dm: "int L mod N = N - 1" "int c div N = M - 1" "int a mod N = N - 2"
    "int b div N = M - 2"
    using bc(5-8) by (simp_all add: ia ib ic iL)
  have b0: "blank_pos p = L"
    using blank_pos_eq [OF dist ord(4)] corner by (simp add: L_def)
  define p1 where "p1 = swap_cells p L c"
  have c1: "change M N p CHR ''A'' = Inr p1"
    using N by (simp add: change_at [OF wf N0 b0] dm nats p1_def)
  have wf1: "wf_board M N p1" and b1: "blank_pos p1 = c"
    using swap_blank_wf(1,2) [OF wf b0 [symmetric], of c] ord by (simp_all add: p1_def)
  define p2 where "p2 = swap_cells p1 c a"
  have c2: "change M N p1 CHR ''W'' = Inr p2"
    using M by (simp add: change_at [OF wf1 N0 b1] dm nats p2_def)
  have l1: "length p1 = length p" using wf wf1 by (simp add: wf_board_def)
  have wf2: "wf_board M N p2" and b2: "blank_pos p2 = a"
    using swap_blank_wf(1,2) [OF wf1 b1 [symmetric], of a] ord l1 by (simp_all add: p2_def)
  define p3 where "p3 = swap_cells p2 a b"
  have c3: "change M N p2 CHR ''D'' = Inr p3"
    using N by (simp add: change_at [OF wf2 N0 b2] dm nats p3_def)
  have l2: "length p2 = length p" using wf wf2 by (simp add: wf_board_def)
  have wf3: "wf_board M N p3" and b3: "blank_pos p3 = b"
    using swap_blank_wf(1,2) [OF wf2 b2 [symmetric], of b] ord l2 by (simp_all add: p3_def)
  define p4 where "p4 = swap_cells p3 b L"
  have c4: "change M N p3 CHR ''S'' = Inr p4"
    using M by (simp add: change_at [OF wf3 N0 b3] dm nats p4_def)
  have "p4 = p[a := p ! b, b := p ! c, c := p ! a]"
    using ord corner [folded L_def]
    by (simp add: p4_def p3_def p2_def p1_def swap_cells_def list_eq_iff_nth_eq nth_list_update)
  then have "p4 = turn M N p" by (simp add: turn_def a_def b_def c_def)
  then show ?thesis using c1 c2 c3 c4 by simp
qed


lemma turn_block:
  assumes M: "2 \<le> M" and N: "2 \<le> N" and bs: "block_state M N p"
  shows "block_state M N (turn M N p)" and "can_solve M N (turn M N p) = can_solve M N p"
proof -
  have pi: "perm_invariant M N p" and corner: "p ! nat (M * N - 1) = - 1"
    using bs by (simp_all add: block_state_def)
  note wf = perm_invariant_wf [OF pi]
  have N0: "0 < N" using N by simp
  note keeps = replay_keeps [OF wf N0 macro_turn [OF M N wf corner]]
  show "can_solve M N (turn M N p) = can_solve M N p" using keeps by simp
  have "perm_invariant M N (turn M N p)"
    using keeps pi by (simp add: perm_invariant_def wf_board_def)
  moreover have "turn M N p ! nat (M * N - 1) = - 1"
    using corner block_cells(1,4) [OF M N] by (simp add: turn_def)
  moreover have "turn M N p ! nat k = k + 1"
    if "0 \<le> k" "k < M * N - 1" "k \<noteq> (M - 1) * N - 2" "k \<noteq> (M - 1) * N - 1" "k \<noteq> M * N - 2"
    for k
    using that bs block_cells(1,4) [OF M N] by (simp add: turn_def block_state_def)
  ultimately show "block_state M N (turn M N p)" by (simp add: block_state_def)
qed

lemma solved_board_nth:
  assumes "1 \<le> M * N"
  shows "length (solved_board M N) = nat (M * N)"
    and "solved_board M N ! nat (M * N - 1) = - 1"
    and "0 \<le> k \<Longrightarrow> k < M * N - 1 \<Longrightarrow> solved_board M N ! nat k = k + 1"
  using assms by (simp_all add: solved_board_def nth_append nat_diff_distrib')


lemma inversions_sorted: "sorted xs \<Longrightarrow> inversions xs = 0"
  by (induction xs) (auto simp: inv_with_def filter_empty_conv)

lemma solved_board_perm:
  assumes "1 \<le> M * N"
  shows "perm_invariant M N (solved_board M N)"
  using assms by (auto simp: perm_invariant_def solved_board_def)

lemma solved_board_can_solve:
  assumes M: "1 \<le> M" and N: "1 \<le> N"
  shows "can_solve M N (solved_board M N) = Inr True"
proof -
  have MN: "1 \<le> M * N" using M N by (metis mult_mono mult_1 zero_le_one order_trans)
  note pi = solved_board_perm [OF MN]
  note wf = perm_invariant_wf [OF pi]
  have len: "length (solved_board M N) = nat (M * N)" and bl: "- 1 \<in> set (solved_board M N)"
    and dist: "distinct (solved_board M N)"
    using wf by (simp_all add: wf_board_def)
  have N0: "0 < N" using N by simp
  have inv: "inversions (solved_board M N) = 0"
    unfolding solved_board_def inversions_drop_blank by (simp add: inversions_sorted)
  have "blank_pos (solved_board M N) = nat (M * N - 1)"
    using MN by (intro blank_pos_eq [OF dist] solved_board_nth(2)) (simp_all add: len)
  then have "int (blank_pos (solved_board M N)) = (M - 1) * N + (N - 1)"
    using MN by (simp add: algebra_simps)
  then have "blank_row N (solved_board M N) = M - 1"
    unfolding blank_row_def using N by simp
  then show ?thesis
    by (simp add: can_solve_formula [OF len bl N0] inv)
qed

lemma block_state_cells:
  assumes M: "2 \<le> M" and N: "2 \<le> N" and bs: "block_state M N p"
    and a: "p ! nat ((M - 1) * N - 2) = x" and b: "p ! nat ((M - 1) * N - 1) = y"
    and c: "p ! nat (M * N - 2) = z"
    and bs': "block_state M N q"
    and a': "q ! nat ((M - 1) * N - 2) = x" and b': "q ! nat ((M - 1) * N - 1) = y"
    and c': "q ! nat (M * N - 2) = z"
  shows "p = q"
proof (rule nth_equalityI)
  note bc = block_cells [OF M N]
  have len: "length p = nat (M * N)" "length q = nat (M * N)"
    using bs bs' by (simp_all add: block_state_def perm_invariant_def)
  then show "length p = length q" by simp
  fix i assume "i < length p"
  then have i: "0 \<le> int i" "int i < M * N" using len by simp_all
  consider "int i = (M - 1) * N - 2" | "int i = (M - 1) * N - 1" | "int i = M * N - 2"
    | "int i = M * N - 1"
    | "int i < M * N - 1" "int i \<noteq> (M - 1) * N - 2" "int i \<noteq> (M - 1) * N - 1" "int i \<noteq> M * N - 2"
    using i by linarith
  then have "p ! nat (int i) = q ! nat (int i)"
  proof cases
    case 1 then show ?thesis using a a' by simp
  next
    case 2 then show ?thesis using b b' by simp
  next
    case 3 then show ?thesis using c c' by simp
  next
    case 4 then show ?thesis using bs bs' by (simp add: block_state_def)
  next
    case 5
    then show ?thesis using bs bs' i(1) unfolding block_state_def by metis
  qed
  then show "p ! i = q ! i" by simp
qed


text \<open>The values in the three cells of the block that the loop tests.\<close>

definition block_cells_of :: "int \<Rightarrow> int \<Rightarrow> board \<Rightarrow> int \<times> int \<times> int" where
  "block_cells_of M N p =
     (p ! nat ((M - 1) * N - 2), p ! nat ((M - 1) * N - 1), p ! nat (M * N - 2))"

lemma block_state_eq:
  assumes "2 \<le> M" and "2 \<le> N" and "block_state M N p" and "block_state M N q"
    and "block_cells_of M N p = block_cells_of M N q"
  shows "p = q"
  using assms(5) unfolding block_cells_of_def
  by (intro block_state_cells [OF assms(1,2,3) refl refl refl assms(4)]) simp_all

lemma block_turn:
  assumes M: "2 \<le> M" and N: "2 \<le> N" and bs: "block_state M N p"
    and b: "block_cells_of M N p = (x, y, z)"
  shows "block_cells_of M N (turn M N p) = (y, z, x)"
proof -
  note bc = block_cells [OF M N]
  have "length p = nat (M * N)" using bs by (simp add: block_state_def perm_invariant_def)
  then show ?thesis
    using b bc(1,4) N by (simp add: block_cells_of_def turn_def)
qed

lemma block_solved:
  assumes M: "2 \<le> M" and N: "2 \<le> N"
  shows "block_state M N (solved_board M N)"
    and "block_cells_of M N (solved_board M N) = ((M - 1) * N - 1, (M - 1) * N, M * N - 1)"
proof -
  note bc = block_cells [OF M N]
  have MN: "1 \<le> M * N" using bc(1,4) by linarith
  show "block_state M N (solved_board M N)"
    using solved_board_perm [OF MN] solved_board_nth(2,3) [OF MN]
    by (simp add: block_state_def)
  show "block_cells_of M N (solved_board M N) = ((M - 1) * N - 1, (M - 1) * N, M * N - 1)"
    using bc(1,4) N by (simp add: block_cells_of_def solved_board_nth(3) [OF MN])
qed

lemma block_value:
  assumes M: "2 \<le> M" and N: "2 \<le> N" and bs: "block_state M N p"
    and i: "i = (M - 1) * N - 2 \<or> i = (M - 1) * N - 1 \<or> i = M * N - 2"
  shows "p ! nat i = (M - 1) * N - 1 \<or> p ! nat i = (M - 1) * N \<or> p ! nat i = M * N - 1"
proof -
  note bc = block_cells [OF M N]
  have len: "length p = nat (M * N)" and dist: "distinct p"
    and st: "set p = set (- 1 # [1 .. M * N - 1])" and corner: "p ! nat (M * N - 1) = - 1"
    and rest: "\<And>k. 0 \<le> k \<Longrightarrow> k < M * N - 1 \<Longrightarrow> k \<noteq> (M - 1) * N - 2 \<Longrightarrow> k \<noteq> (M - 1) * N - 1
                 \<Longrightarrow> k \<noteq> M * N - 2 \<Longrightarrow> p ! nat k = k + 1"
    using bs by (simp_all add: block_state_def perm_invariant_def)
  have i0: "0 \<le> i" "i < M * N - 1" using i bc(1,4) by linarith+
  then have il: "nat i < length p" using len by simp
  have diff: "p ! nat i \<noteq> p ! nat k" if "0 \<le> k" "k < M * N" "k \<noteq> i" for k
  proof -
    have "nat k < length p" "nat i \<noteq> nat k" using that len i0 by simp_all
    then show ?thesis using dist il by (simp add: nth_eq_iff_index_eq)
  qed
  have "p ! nat i \<in> set p" using il by simp
  then have v: "p ! nat i = - 1 \<or> (1 \<le> p ! nat i \<and> p ! nat i \<le> M * N - 1)"
    unfolding st by auto
  have "p ! nat i \<noteq> - 1" using diff [of "M * N - 1"] corner i0 by simp
  then have r: "0 \<le> p ! nat i - 1" "p ! nat i - 1 < M * N - 1" using v by simp_all
  show ?thesis
  proof (rule ccontr)
    assume "\<not> ?thesis"
    then have k: "p ! nat i - 1 \<noteq> (M - 1) * N - 2" "p ! nat i - 1 \<noteq> (M - 1) * N - 1"
      "p ! nat i - 1 \<noteq> M * N - 2"
      by (simp_all add: algebra_simps)
    from rest [OF r k] have "p ! nat (p ! nat i - 1) = p ! nat i" by simp
    moreover have "p ! nat i - 1 \<noteq> i" using k i by auto
    ultimately show False using diff [of "p ! nat i - 1"] r by simp
  qed
qed


lemma block_transposed:
  assumes M: "2 \<le> M" and N: "2 \<le> N" and bs: "block_state M N p"
    and b: "block_cells_of M N p = ((M - 1) * N, (M - 1) * N - 1, M * N - 1)"
  shows "can_solve M N p = Inr False"
proof -
  define a where "a = nat ((M - 1) * N - 2)"
  define q where "q = swap_cells p a (Suc a)"
  note bc = block_cells [OF M N]
  have N0: "0 < N" using N by simp
  have sa: "Suc a = nat ((M - 1) * N - 1)" using bc(1) by (simp add: a_def nat_diff_distrib')
  have ia: "int a = (M - 1) * N - 2" using bc(1) by (simp add: a_def)
  have pi: "perm_invariant M N p" and corner: "p ! nat (M * N - 1) = - 1"
    and rest: "\<And>k. 0 \<le> k \<Longrightarrow> k < M * N - 1 \<Longrightarrow> k \<noteq> (M - 1) * N - 2 \<Longrightarrow> k \<noteq> (M - 1) * N - 1
                 \<Longrightarrow> k \<noteq> M * N - 2 \<Longrightarrow> p ! nat k = k + 1"
    using bs by (simp_all add: block_state_def)
  have len: "length p = nat (M * N)" and dist: "distinct p" and bl: "- 1 \<in> set p"
    using perm_invariant_wf [OF pi] by (simp_all add: wf_board_def)
  have vals: "p ! a = (M - 1) * N" "p ! Suc a = (M - 1) * N - 1" "p ! nat (M * N - 2) = M * N - 1"
    using b by (simp_all add: block_cells_of_def a_def [symmetric] sa [symmetric])
  have lt: "a < length p" "Suc a < length p" using len ia bc(4) by linarith+
  note sw = swap_cells_props [OF lt]
  have "perm_invariant M N q"
    using pi sw(1,2) swap_cells_distinct [OF lt dist] by (simp add: perm_invariant_def q_def)
  moreover have "q ! nat (M * N - 1) = - 1"
    unfolding q_def using corner ia bc(4) by (subst sw(5)) simp_all
  moreover have "q ! nat k = k + 1"
    if "0 \<le> k" "k < M * N - 1" "k \<noteq> (M - 1) * N - 2" "k \<noteq> (M - 1) * N - 1" "k \<noteq> M * N - 2"
    for k
    unfolding q_def using that rest [OF that] ia by (subst sw(5)) simp_all
  ultimately have bq: "block_state M N q" by (simp add: block_state_def)
  have "q ! nat (M * N - 2) = p ! nat (M * N - 2)"
    unfolding q_def using ia bc(4) by (subst sw(5)) simp_all
  then have "block_cells_of M N q = ((M - 1) * N - 1, (M - 1) * N, M * N - 1)"
    using vals sw(3,4) by (simp add: block_cells_of_def a_def [symmetric] sa [symmetric] q_def)
  then have "q = solved_board M N"
    using block_solved [OF M N] by (intro block_state_eq [OF M N bq]) simp_all
  then have cq: "can_solve M N q = Inr True"
    using solved_board_can_solve [of M N] M N by simp
  obtain v where v: "can_solve M N p = Inr v"
    using can_solve_formula [OF len bl N0] by blast
  have "can_solve M N q = Inr (\<not> v)"
    unfolding q_def using vals bc(1) M N
    by (intro can_solve_adjacent_swap [OF len bl N0 lt(2) _ _ _ v]) simp_all
  then show ?thesis using cq v by simp
qed

lemma solvable_turns:
  assumes M: "2 \<le> M" and N: "2 \<le> N" and bs: "block_state M N p"
    and cs: "can_solve M N p = Inr True"
  shows "p = solved_board M N \<or> turn M N p = solved_board M N
         \<or> turn M N (turn M N p) = solved_board M N"
proof -
  obtain x y z where b: "block_cells_of M N p = (x, y, z)" by (cases "block_cells_of M N p")
  note bc = block_cells [OF M N]
  have len: "length p = nat (M * N)" and dist: "distinct p"
    using bs by (simp_all add: block_state_def perm_invariant_def)
  let ?A = "(M - 1) * N - 1" and ?B = "(M - 1) * N" and ?C = "M * N - 1"
  have x: "x = ?A \<or> x = ?B \<or> x = ?C" and y: "y = ?A \<or> y = ?B \<or> y = ?C"
    and z: "z = ?A \<or> z = ?B \<or> z = ?C"
    using block_value [OF M N bs, of "(M - 1) * N - 2"] block_value [OF M N bs, of "(M - 1) * N - 1"]
      block_value [OF M N bs, of "M * N - 2"] b
    by (simp_all add: block_cells_of_def)
  have "nat ((M - 1) * N - 2) < length p" "nat ((M - 1) * N - 1) < length p"
    "nat (M * N - 2) < length p" "nat ((M - 1) * N - 2) \<noteq> nat ((M - 1) * N - 1)"
    "nat ((M - 1) * N - 2) \<noteq> nat (M * N - 2)" "nat ((M - 1) * N - 1) \<noteq> nat (M * N - 2)"
    using len bc(1,4) by simp_all
  then have ne: "x \<noteq> y" "x \<noteq> z" "y \<noteq> z"
    using b dist by (auto simp: block_cells_of_def nth_eq_iff_index_eq)
  note b1 = block_turn [OF M N bs b]
  note s1 = turn_block [OF M N bs]
  note b2 = block_turn [OF M N s1(1) b1]
  note s2 = turn_block [OF M N s1(1)]
  note S = block_solved [OF M N]
  have ABC: "?A \<noteq> ?B" "?A \<noteq> ?C" "?B \<noteq> ?C" using N by (simp_all add: algebra_simps)
  consider "(x, y, z) = (?A, ?B, ?C)" | "(x, y, z) = (?C, ?A, ?B)" | "(x, y, z) = (?B, ?C, ?A)"
    | "(x, y, z) = (?B, ?A, ?C)" | "(x, y, z) = (?C, ?B, ?A)" | "(x, y, z) = (?A, ?C, ?B)"
    using x y z ne by auto
  then show ?thesis
  proof cases
    case 1
    then have "p = solved_board M N" using b S by (intro block_state_eq [OF M N bs]) simp_all
    then show ?thesis by simp
  next
    case 2
    then have "turn M N p = solved_board M N"
      using b1 S by (intro block_state_eq [OF M N s1(1)]) simp_all
    then show ?thesis by simp
  next
    case 3
    then have "turn M N (turn M N p) = solved_board M N"
      using b2 S by (intro block_state_eq [OF M N s2(1)]) simp_all
    then show ?thesis by simp
  next
    case 4
    then have "can_solve M N p = Inr False" using b by (intro block_transposed [OF M N bs]) simp
    then show ?thesis using cs by simp
  next
    case 5
    then have "can_solve M N (turn M N p) = Inr False"
      using b1 by (intro block_transposed [OF M N s1(1)]) simp
    then show ?thesis using cs s1(2) by simp
  next
    case 6
    then have "can_solve M N (turn M N (turn M N p)) = Inr False"
      using b2 by (intro block_transposed [OF M N s2(1)]) simp
    then show ?thesis using cs s1(2) s2(2) by simp
  qed
qed

lemma unsolved_test:
  assumes M: "2 \<le> M" and N: "2 \<le> N" and bs: "block_state M N (puzzle s)"
  shows "with_unsolved M N k s = k (puzzle s \<noteq> solved_board M N) s"
proof -
  note bc = block_cells [OF M N]
  note S = block_solved [OF M N]
  have len: "int (length (puzzle s)) = M * N"
    using bs bc(1,4) by (simp add: block_state_def perm_invariant_def)
  have rds: "rd (puzzle s) (M * N - 2) = Inr (puzzle s ! nat (M * N - 2))"
    "rd (puzzle s) ((M - 1) * N - 1) = Inr (puzzle s ! nat ((M - 1) * N - 1))"
    "rd (puzzle s) ((M - 1) * N - 2) = Inr (puzzle s ! nat ((M - 1) * N - 2))"
    using len bc(1,4) by (simp_all add: rd_def)
  have eq: "(puzzle s = solved_board M N) =
          (block_cells_of M N (puzzle s) = ((M - 1) * N - 1, (M - 1) * N, M * N - 1))"
  proof
    assume "puzzle s = solved_board M N"
    then show "block_cells_of M N (puzzle s) = ((M - 1) * N - 1, (M - 1) * N, M * N - 1)"
      using S(2) by simp
  next
    assume "block_cells_of M N (puzzle s) = ((M - 1) * N - 1, (M - 1) * N, M * N - 1)"
    then show "puzzle s = solved_board M N"
      by (intro block_state_eq [OF M N bs S(1)]) (simp add: S(2))
  qed
  show ?thesis
    unfolding eq by (simp add: with_unsolved_def with_rd_def rds block_cells_of_def)
qed

lemma endgame_solved:
  assumes "2 \<le> M" and "2 \<le> N" and "puzzle s = solved_board M N"
  shows "endgame fuel M N s = Some (Done s)"
proof -
  have "block_state M N (puzzle s)" using block_solved(1) [OF assms(1,2)] assms(3) by simp
  from unsolved_test [OF assms(1,2) this] show ?thesis
    using assms(3) by (cases fuel) (simp_all add: skip_def)
qed

lemma endgame_turn:
  assumes M: "2 \<le> M" and N: "2 \<le> N" and bs: "block_state M N (puzzle s)"
    and un: "puzzle s \<noteq> solved_board M N"
  shows "\<exists>t. endgame (Suc fuel) M N s = endgame fuel M N t \<and> puzzle t = turn M N (puzzle s) \<and>
             sol t = sol s @ ''AWDS'' \<and> hist t = hist s @ ''AWDS'' \<and> step t = step s \<and>
             out t = out s \<and> printout t = printout s"
proof -
  have wf: "wf_board M N (puzzle s)" and corner: "puzzle s ! nat (M * N - 1) = - 1"
    using bs perm_invariant_wf by (simp_all add: block_state_def)
  from append_sol_ok [OF macro_turn [OF M N wf corner]]
  obtain t where t: "append_sol M N ''AWDS'' s = Some (Done t)" "puzzle t = turn M N (puzzle s)"
    "sol t = sol s @ ''AWDS''" "hist t = hist s @ ''AWDS''" "step t = step s" "out t = out s"
    "printout t = printout s"
    by blast
  have "endgame (Suc fuel) M N s = endgame fuel M N t"
    using un t(1) by (simp add: unsolved_test [OF M N bs] thn_def)
  then show ?thesis using t by blast
qed

text \<open>
  Claim C8.  When the last loop of \<open>autosolve\<close> starts in a state whose board is a
  permutation with the blank in the bottom-right corner and every cell outside the
  bottom-right 2\<times>2 block at its target value (\<open>block_state\<close>), and \<open>can_solve\<close> accepts
  the board, the loop returns after \<open>n \<le> 2\<close> applications of \<open>AWDS\<close> (any fuel from \<open>n\<close>
  on is enough, and exactly \<open>n\<close> copies of the macro are appended to \<open>sol\<close>); the board is then
  the solved board, and the cells \<open>(M-2, N-2)\<close>, \<open>(M-2, N-1)\<close> and \<open>(M-1, N-2)\<close> hold
  \<open>(M-1)N-1\<close>, \<open>(M-1)N\<close> and \<open>MN-1\<close>.
\<close>

theorem endgame_two_turns:
  assumes M: "2 \<le> M" and N: "2 \<le> N" and bs: "block_state M N (puzzle s)"
    and cs: "can_solve M N (puzzle s) = Inr True"
  shows "\<exists>n t. n \<le> 2 \<and> endgame (n + fuel) M N s = Some (Done t) \<and>
           sol t = sol s @ concat (replicate n ''AWDS'') \<and>
           hist t = hist s @ concat (replicate n ''AWDS'') \<and>
           puzzle t = solved_board M N \<and>
           block_cells_of M N (puzzle t) = ((M - 1) * N - 1, (M - 1) * N, M * N - 1)"
proof -
  note S = block_solved(2) [OF M N]
  consider (zero) "puzzle s = solved_board M N"
    | (one) "puzzle s \<noteq> solved_board M N" "turn M N (puzzle s) = solved_board M N"
    | (two) "puzzle s \<noteq> solved_board M N" "turn M N (puzzle s) \<noteq> solved_board M N"
        "turn M N (turn M N (puzzle s)) = solved_board M N"
    using solvable_turns [OF M N bs cs] by blast
  then show ?thesis
  proof cases
    case zero
    have "endgame (0 + fuel) M N s = Some (Done s)" using endgame_solved [OF M N zero] by simp
    then show ?thesis using zero S by (intro exI [of _ 0] exI [of _ s]) simp
  next
    case one
    from endgame_turn [OF M N bs one(1), of fuel]
    obtain t where t: "endgame (Suc fuel) M N s = endgame fuel M N t"
      "puzzle t = turn M N (puzzle s)" "sol t = sol s @ ''AWDS''" "hist t = hist s @ ''AWDS''"
      by blast
    have pt: "puzzle t = solved_board M N" using t(2) one(2) by simp
    have "endgame (1 + fuel) M N s = Some (Done t)"
      using t(1) endgame_solved [OF M N pt] by simp
    then show ?thesis using t(3,4) pt S by (intro exI [of _ 1] exI [of _ t]) simp
  next
    case two
    from endgame_turn [OF M N bs two(1), of "Suc fuel"]
    obtain t where t: "endgame (Suc (Suc fuel)) M N s = endgame (Suc fuel) M N t"
      "puzzle t = turn M N (puzzle s)" "sol t = sol s @ ''AWDS''" "hist t = hist s @ ''AWDS''"
      by blast
    have bt: "block_state M N (puzzle t)" using turn_block(1) [OF M N bs] t(2) by simp
    have ut: "puzzle t \<noteq> solved_board M N" using two(2) t(2) by simp
    from endgame_turn [OF M N bt ut, of fuel]
    obtain u where u: "endgame (Suc fuel) M N t = endgame fuel M N u"
      "puzzle u = turn M N (puzzle t)" "sol u = sol t @ ''AWDS''" "hist u = hist t @ ''AWDS''"
      by blast
    have pu: "puzzle u = solved_board M N" using u(2) t(2) two(3) by simp
    have "endgame (2 + fuel) M N s = Some (Done u)"
      using t(1) u(1) endgame_solved [OF M N pu] by simp
    then show ?thesis
      using t(3,4) u(3,4) pu S by (intro exI [of _ 2] exI [of _ u]) (simp add: numeral_2_eq_2)
  qed
qed

theorem endgame_two_turns_witness:
  "(2::int) \<le> 2 \<and> block_state 2 2 (puzzle (init [2, 3, 1, - 1])) \<and>
   can_solve 2 2 (puzzle (init [2, 3, 1, - 1])) = Inr True \<and>
   (\<exists>n t. n \<le> 2 \<and> endgame (n + 0) 2 2 (init [2, 3, 1, - 1]) = Some (Done t) \<and>
      sol t = sol (init [2, 3, 1, - 1]) @ concat (replicate n ''AWDS'') \<and>
      hist t = hist (init [2, 3, 1, - 1]) @ concat (replicate n ''AWDS'') \<and>
      puzzle t = solved_board 2 2 \<and>
      block_cells_of 2 2 (puzzle t) = ((2 - 1) * 2 - 1, (2 - 1) * 2, 2 * 2 - 1)) \<and>
   (case endgame 1 2 2 (init [2, 3, 1, - 1]) of
      Some (Cut t) \<Rightarrow> puzzle t = [3, 1, 2, - 1] \<and> hist t = ''AWDS'' | _ \<Rightarrow> False) \<and>
   endgame 2 2 2 (init [2, 3, 1, - 1])
     = Some (Done \<lparr>puzzle = [1, 2, 3, - 1], sol = ''AWDSAWDS'', printout = True, step = 0,
                    shown = [[2, 3, - 1, 1], [- 1, 3, 2, 1], [3, - 1, 2, 1], [3, 1, 2, - 1],
                             [3, 1, - 1, 2], [- 1, 1, 3, 2], [1, - 1, 3, 2], [1, 2, 3, - 1]],
                    out = [], hist = ''AWDSAWDS''\<rparr>)"
proof -
  have pi: "perm_invariant 2 2 [2, 3, 1, - 1]"
    by (auto simp: perm_invariant_def upto.simps)
  have k: "k = 0 \<or> k = 1 \<or> k = 2" if "0 \<le> k" "k < 3" for k :: int
    using that by linarith
  have bs: "block_state 2 2 (puzzle (init [2, 3, 1, - 1]))"
    using pi k by (auto simp: block_state_def init_def)
  have cs: "can_solve 2 2 (puzzle (init [2, 3, 1, - 1])) = Inr True"
    by code_simp
  have r1: "(case endgame 1 2 2 (init [2, 3, 1, - 1]) of
      Some (Cut t) \<Rightarrow> puzzle t = [3, 1, 2, - 1] \<and> hist t = ''AWDS'' | _ \<Rightarrow> False)"
    by code_simp
  have r2: "endgame 2 2 2 (init [2, 3, 1, - 1])
     = Some (Done \<lparr>puzzle = [1, 2, 3, - 1], sol = ''AWDSAWDS'', printout = True, step = 0,
                    shown = [[2, 3, - 1, 1], [- 1, 3, 2, 1], [3, - 1, 2, 1], [3, 1, 2, - 1],
                             [3, 1, - 1, 2], [- 1, 1, 3, 2], [1, - 1, 3, 2], [1, 2, 3, - 1]],
                    out = [], hist = ''AWDSAWDS''\<rparr>)"
    by code_simp
  have ex: "\<exists>n t. n \<le> 2 \<and> endgame (n + 0) 2 2 (init [2, 3, 1, - 1]) = Some (Done t) \<and>
      sol t = sol (init [2, 3, 1, - 1]) @ concat (replicate n ''AWDS'') \<and>
      hist t = hist (init [2, 3, 1, - 1]) @ concat (replicate n ''AWDS'') \<and>
      puzzle t = solved_board 2 2 \<and>
      block_cells_of 2 2 (puzzle t) = ((2 - 1) * 2 - 1, (2 - 1) * 2, 2 * 2 - 1)"
    by (rule endgame_two_turns [OF _ _ bs cs]) simp_all
  show ?thesis
    by (intro conjI bs cs r1 r2 ex) simp
qed

section \<open>Boards reachable by legal moves\<close>

definition reach :: "int \<Rightarrow> int \<Rightarrow> board \<Rightarrow> board \<Rightarrow> bool" where
  "reach M N p q \<longleftrightarrow> (\<exists>cs. replay M N p cs = Inr q)"

lemma reach_refl: "reach M N p p"
  unfolding reach_def by (rule exI [of _ "[]"]) simp

lemma reach_trans:
  assumes "reach M N p q" and "reach M N q r"
  shows "reach M N p r"
proof -
  obtain cs ds where "replay M N p cs = Inr q" "replay M N q ds = Inr r"
    using assms unfolding reach_def by blast
  then have "replay M N p (cs @ ds) = Inr r" by (simp add: replay_append)
  then show ?thesis unfolding reach_def by blast
qed

lemma reach_step: "change M N p c = Inr q \<Longrightarrow> reach M N p q"
  unfolding reach_def by (rule exI [of _ "[c]"]) simp

lemma reach_keeps:
  assumes "wf_board M N p" and "0 < N" and "reach M N p q"
  shows "wf_board M N q" and "set q = set p" and "can_solve M N q = can_solve M N p"
  using assms replay_keeps unfolding reach_def by blast+

lemma swap_cells_twice:
  assumes "i < length p" and "j < length p"
  shows "swap_cells (swap_cells p i j) j i = p"
  using assms by (simp add: swap_cells_def list_eq_iff_nth_eq nth_list_update)

text \<open>Every legal move is undone by the opposite move.\<close>

lemma change_back:
  assumes wf: "wf_board M N p" and N: "0 < N" and ch: "change M N p c = Inr q"
  shows "\<exists>c'. change M N q c' = Inr p"
proof -
  define b where "b = blank_pos p"
  have len: "length p = nat (M * N)" and bl: "- 1 \<in> set p"
    using wf by (simp_all add: wf_board_def)
  have bp: "b < length p" unfolding b_def using blank_pos_less [OF bl] .
  have ib: "int b < M * N" using bp len by linarith
  note ch_at = change_at [OF wf N b_def [symmetric]]
  have inv_move: "change M N (swap_cells p b k) c' = Inr p"
    if k: "k < length p"
      and c': "change M N (swap_cells p b k) c'
                = Inr (swap_cells (swap_cells p b k) k b)" for k c'
    using c' swap_cells_twice [OF bp k] by simp
  have step: "\<exists>c'. change M N (swap_cells p b k) c' = Inr p"
    if k: "k < length p"
      and c': "\<exists>c'. change M N (swap_cells p b k) c'
                = Inr (swap_cells (swap_cells p b k) k b)" for k
    using inv_move [OF k] c' by blast
  have wfk: "wf_board M N (swap_cells p b k)" and bk: "blank_pos (swap_cells p b k) = k"
    if "k < length p" for k
    using swap_blank_wf(1,2) [OF wf b_def that] by simp_all
  consider (W) "c = CHR ''W''" "0 < int b div N" "q = swap_cells p b (nat (int b - N))"
    | (S) "c = CHR ''S''" "int b div N < M - 1" "q = swap_cells p b (nat (int b + N))"
    | (A) "c = CHR ''A''" "0 < int b mod N" "q = swap_cells p b (nat (int b - 1))"
    | (D) "c = CHR ''D''" "int b mod N < N - 1" "q = swap_cells p b (nat (int b + 1))"
    using ch unfolding ch_at by (auto split: if_splits)
  then show ?thesis
  proof cases
    case W
    have ge: "N \<le> int b" using bound_up [OF N W(2)] .
    define k where "k = nat (int b - N)"
    have ik: "int k = int b - N" using ge by (simp add: k_def)
    have k: "k < length p" using ik bp N by linarith
    have d: "int k div N = int b div N - 1" unfolding ik by (rule row_up [OF N])
    have lt: "int b div N < M"
      using ib N by (simp add: div_less_rows)
    have "change M N (swap_cells p b k) CHR ''S'' = Inr (swap_cells (swap_cells p b k) k b)"
      using lt by (simp add: change_at [OF wfk [OF k] N bk [OF k]] d d [unfolded ik] ik)
    then show ?thesis unfolding W(3) k_def [symmetric] by (intro step [OF k]) blast
  next
    case S
    define k where "k = nat (int b + N)"
    have ik: "int k = int b + N" using N by (simp add: k_def)
    have "int b + N < M * N" using bound_down [OF N S(2)] .
    then have k: "k < length p" using ik len by linarith
    have d: "int k div N = int b div N + 1" unfolding ik by (rule row_down [OF N])
    have nn: "0 \<le> int b div N" using N by (simp add: pos_imp_zdiv_nonneg_iff)
    have "change M N (swap_cells p b k) CHR ''W'' = Inr (swap_cells (swap_cells p b k) k b)"
      using nn by (simp add: change_at [OF wfk [OF k] N bk [OF k]] d d [unfolded ik] ik)
    then show ?thesis unfolding S(3) k_def [symmetric] by (intro step [OF k]) blast
  next
    case A
    have ge: "1 \<le> int b" using A(2) by (cases b) simp_all
    define k where "k = nat (int b - 1)"
    have ik: "int k = int b - 1" using ge by (simp add: k_def)
    have k: "k < length p" using ik bp by linarith
    have m: "int k mod N = int b mod N - 1"
    proof -
      have "int b - 1 = N * (int b div N) + (int b mod N - 1)"
        using int_split [of "int b" N] by linarith
      then show ?thesis
        unfolding ik using A(2) pos_mod_bound [OF N, of "int b"]
        by (intro int_mod_pos_eq [where q = "int b div N"]) simp_all
    qed
    have "change M N (swap_cells p b k) CHR ''D'' = Inr (swap_cells (swap_cells p b k) k b)"
      using pos_mod_bound [OF N, of "int b"]
      by (simp add: change_at [OF wfk [OF k] N bk [OF k]] m m [unfolded ik] ik)
    then show ?thesis unfolding A(3) k_def [symmetric] by (intro step [OF k]) blast
  next
    case D
    define k where "k = nat (int b + 1)"
    have ik: "int k = int b + 1" by (simp add: k_def)
    have "int b + 1 < M * N" using bound_right [OF N ib D(2)] .
    then have k: "k < length p" using ik len by linarith
    have m: "int k mod N = int b mod N + 1"
    proof -
      have "int b + 1 = N * (int b div N) + (int b mod N + 1)"
        using int_split [of "int b" N] by linarith
      then show ?thesis
        unfolding ik using D(2) pos_mod_sign [OF N, of "int b"]
        by (intro int_mod_pos_eq [where q = "int b div N"]) simp_all
    qed
    have "change M N (swap_cells p b k) CHR ''A'' = Inr (swap_cells (swap_cells p b k) k b)"
      using pos_mod_sign [OF N, of "int b"]
      by (simp add: change_at [OF wfk [OF k] N bk [OF k]] m m [unfolded ik] ik)
    then show ?thesis unfolding D(3) k_def [symmetric] by (intro step [OF k]) blast
  qed
qed

lemma reach_sym:
  assumes "wf_board M N p" and "0 < N" and "reach M N p q"
  shows "reach M N q p"
proof -
  have "replay M N p cs = Inr q \<Longrightarrow> wf_board M N p \<Longrightarrow> reach M N q p" for cs
  proof (induction cs arbitrary: p)
    case Nil
    then show ?case by (simp add: reach_refl)
  next
    case (Cons c cs)
    then obtain p' where p': "change M N p c = Inr p'" "replay M N p' cs = Inr q"
      by (auto split: sum.splits)
    have "wf_board M N p'" using change_keeps(1) [OF Cons.prems(2) assms(2) p'(1)] .
    then have "reach M N q p'" using Cons.IH [OF p'(2)] by simp
    moreover have "reach M N p' p"
      using change_back [OF Cons.prems(2) assms(2) p'(1)] reach_step by blast
    ultimately show ?case by (rule reach_trans)
  qed
  then show ?thesis using assms unfolding reach_def by blast
qed

subsection \<open>Moves inside the rows below the first and inside the rows above the last\<close>

lemma change_cases:
  assumes wf: "wf_board M N p" and N: "0 < N" and ch: "change M N p c = Inr q"
  obtains (W) "c = CHR ''W''" "0 < int (blank_pos p) div N"
      "q = swap_cells p (blank_pos p) (nat (int (blank_pos p) - N))"
    | (S) "c = CHR ''S''" "int (blank_pos p) div N < M - 1"
      "q = swap_cells p (blank_pos p) (nat (int (blank_pos p) + N))"
    | (A) "c = CHR ''A''" "0 < int (blank_pos p) mod N"
      "q = swap_cells p (blank_pos p) (nat (int (blank_pos p) - 1))"
    | (D) "c = CHR ''D''" "int (blank_pos p) mod N < N - 1"
      "q = swap_cells p (blank_pos p) (nat (int (blank_pos p) + 1))"
  using ch unfolding change_at [OF wf N refl] by (auto split: if_splits)

lemma swap_cells_below:
  assumes "i < length x" and "j < length x"
  shows "swap_cells (r @ x) (length r + i) (length r + j) = r @ swap_cells x i j"
  using assms by (simp add: swap_cells_def list_update_append nth_append)

lemma swap_cells_above:
  assumes "i < length x" and "j < length x"
  shows "swap_cells (x @ r) i j = swap_cells x i j @ r"
  using assms by (simp add: swap_cells_def list_update_append nth_append)

lemma blank_pos_below: "- 1 \<notin> set r \<Longrightarrow> blank_pos (r @ x) = length r + blank_pos x"
  unfolding blank_pos_def by (subst takeWhile_append2) auto

lemma blank_pos_above: "- 1 \<in> set x \<Longrightarrow> blank_pos (x @ r) = blank_pos x"
  unfolding blank_pos_def by (subst takeWhile_append1 [where x = "- 1"]) auto

lemma change_below:
  assumes wf: "wf_board M N (r @ x)" and wfx: "wf_board (M - 1) N x"
    and r: "length r = nat N" and nb: "- 1 \<notin> set r" and N: "0 < N"
    and ch: "change (M - 1) N x c = Inr y"
  shows "change M N (r @ x) c = Inr (r @ y)"
proof -
  define b where "b = blank_pos x"
  have bl: "- 1 \<in> set x" and lx: "length x = nat ((M - 1) * N)"
    using wfx by (simp_all add: wf_board_def)
  have bx: "b < length x" unfolding b_def by (rule blank_pos_less [OF bl])
  have ibx: "int b < (M - 1) * N" using bx lx by linarith
  have bp: "blank_pos (r @ x) = length r + b" unfolding b_def by (rule blank_pos_below [OF nb])
  have ib: "int (length r + b) = int b + N" using r N by simp
  have dv: "(int b + N) div N = int b div N + 1" by (rule row_down [OF N])
  have md: "(int b + N) mod N = int b mod N" by simp
  note whole = change_at [OF wf N bp, unfolded ib dv md]
  from wfx N ch show ?thesis
  proof (cases rule: change_cases)
    case W
    have ge: "N \<le> int b" using bound_up [OF N W(2) [folded b_def]] .
    have nn: "0 \<le> int b div N" using N by (simp add: pos_imp_zdiv_nonneg_iff)
    have k: "nat (int b - N) < length x" using bx N by linarith
    have "nat (int b + N - N) = length r + nat (int b - N)" using r N ge by simp
    then show ?thesis
      unfolding whole W(3) b_def [symmetric] using W(1) nn swap_cells_below [OF bx k, of r]
      by simp
  next
    case S
    have "int b + N < (M - 1) * N" using bound_down [OF N S(2) [folded b_def]] .
    then have k: "nat (int b + N) < length x" using N by (simp add: lx nat_less_eq_zless)
    have "nat (int b + N + N) = length r + nat (int b + N)" using r N by simp
    then show ?thesis
      unfolding whole S(3) b_def [symmetric]
      using S(1,2) [folded b_def] swap_cells_below [OF bx k, of r] by simp
  next
    case A
    have ge: "1 \<le> int b" using A(2) [folded b_def] by (cases b) simp_all
    have k: "nat (int b - 1) < length x" using bx by linarith
    have "nat (int b + N - 1) = length r + nat (int b - 1)" using r N ge by simp
    then show ?thesis
      unfolding whole A(3) b_def [symmetric]
      using A(1,2) [folded b_def] swap_cells_below [OF bx k, of r] by simp
  next
    case D
    have "int b + 1 < (M - 1) * N" using bound_right [OF N ibx D(2) [folded b_def]] .
    then have k: "nat (int b + 1) < length x" by (simp add: lx nat_less_eq_zless)
    have "nat (int b + N + 1) = length r + nat (int b + 1)" using r N by simp
    then show ?thesis
      unfolding whole D(3) b_def [symmetric]
      using D(1,2) [folded b_def] swap_cells_below [OF bx k, of r] by simp
  qed
qed

lemma change_above:
  assumes wf: "wf_board M N (x @ r)" and wfx: "wf_board (M - 1) N x" and N: "0 < N"
    and ch: "change (M - 1) N x c = Inr y"
  shows "change M N (x @ r) c = Inr (y @ r)"
proof -
  define b where "b = blank_pos x"
  have bl: "- 1 \<in> set x" and lx: "length x = nat ((M - 1) * N)"
    using wfx by (simp_all add: wf_board_def)
  have bx: "b < length x" unfolding b_def by (rule blank_pos_less [OF bl])
  have ibx: "int b < (M - 1) * N" using bx lx by linarith
  have bp: "blank_pos (x @ r) = b" unfolding b_def by (rule blank_pos_above [OF bl])
  note whole = change_at [OF wf N bp]
  from wfx N ch show ?thesis
  proof (cases rule: change_cases)
    case W
    have k: "nat (int b - N) < length x" using bx N by linarith
    show ?thesis
      unfolding whole W(3) b_def [symmetric]
      using W(1,2) [folded b_def] swap_cells_above [OF bx k, of r] by simp
  next
    case S
    have "int b + N < (M - 1) * N" using bound_down [OF N S(2) [folded b_def]] .
    then have k: "nat (int b + N) < length x" using N by (simp add: lx nat_less_eq_zless)
    show ?thesis
      unfolding whole S(3) b_def [symmetric]
      using S(1,2) [folded b_def] swap_cells_above [OF bx k, of r] by simp
  next
    case A
    have k: "nat (int b - 1) < length x" using bx by linarith
    show ?thesis
      unfolding whole A(3) b_def [symmetric]
      using A(1,2) [folded b_def] swap_cells_above [OF bx k, of r] by simp
  next
    case D
    have "int b + 1 < (M - 1) * N" using bound_right [OF N ibx D(2) [folded b_def]] .
    then have k: "nat (int b + 1) < length x" by (simp add: lx nat_less_eq_zless)
    show ?thesis
      unfolding whole D(3) b_def [symmetric]
      using D(1,2) [folded b_def] swap_cells_above [OF bx k, of r] by simp
  qed
qed

lemma replay_below:
  assumes "replay (M - 1) N x cs = Inr y" and "wf_board M N (r @ x)"
    and "wf_board (M - 1) N x" and r: "length r = nat N" and nb: "- 1 \<notin> set r"
    and N: "0 < N"
  shows "replay M N (r @ x) cs = Inr (r @ y)"
  using assms(1-3)
proof (induction cs arbitrary: x)
  case Nil
  then show ?case by simp
next
  case (Cons c cs)
  then obtain x' where x': "change (M - 1) N x c = Inr x'" "replay (M - 1) N x' cs = Inr y"
    by (auto split: sum.splits)
  note ch = change_below [OF Cons.prems(2,3) r nb N x'(1)]
  have "replay M N (r @ x') cs = Inr (r @ y)"
    using change_keeps(1) [OF Cons.prems(2) N ch] change_keeps(1) [OF Cons.prems(3) N x'(1)]
    by (intro Cons.IH [OF x'(2)])
  then show ?case using ch by simp
qed

lemma replay_above:
  assumes "replay (M - 1) N x cs = Inr y" and "wf_board M N (x @ r)"
    and "wf_board (M - 1) N x" and N: "0 < N"
  shows "replay M N (x @ r) cs = Inr (y @ r)"
  using assms(1-3)
proof (induction cs arbitrary: x)
  case Nil
  then show ?case by simp
next
  case (Cons c cs)
  then obtain x' where x': "change (M - 1) N x c = Inr x'" "replay (M - 1) N x' cs = Inr y"
    by (auto split: sum.splits)
  note ch = change_above [OF Cons.prems(2,3) N x'(1)]
  have "replay M N (x' @ r) cs = Inr (y @ r)"
    using change_keeps(1) [OF Cons.prems(2) N ch] change_keeps(1) [OF Cons.prems(3) N x'(1)]
    by (intro Cons.IH [OF x'(2)])
  then show ?case using ch by simp
qed

lemma reach_below:
  assumes "reach (M - 1) N x y" and "wf_board M N (r @ x)" and "wf_board (M - 1) N x"
    and "length r = nat N" and "- 1 \<notin> set r" and "0 < N"
  shows "reach M N (r @ x) (r @ y)"
  using assms replay_below unfolding reach_def by blast

lemma reach_above:
  assumes "reach (M - 1) N x y" and "wf_board M N (x @ r)" and "wf_board (M - 1) N x"
    and "0 < N"
  shows "reach M N (x @ r) (y @ r)"
  using assms replay_above unfolding reach_def by blast

subsection \<open>Two classes of boards\<close>

text \<open>All boards of one size with the same tiles and the same value of the solvability
  test are reachable from each other.\<close>

definition connected :: "int \<Rightarrow> int \<Rightarrow> bool" where
  "connected M N \<longleftrightarrow>
     (\<forall>p q. wf_board M N p \<longrightarrow> wf_board M N q \<longrightarrow> set p = set q \<longrightarrow>
            can_solve M N p = can_solve M N q \<longrightarrow> reach M N p q)"

text \<open>The same without the solvability test: of three boards with the same tiles, two are
  reachable from each other.\<close>

definition two_classes :: "int \<Rightarrow> int \<Rightarrow> bool" where
  "two_classes M N \<longleftrightarrow>
     (\<forall>p q r. wf_board M N p \<longrightarrow> wf_board M N q \<longrightarrow> wf_board M N r \<longrightarrow>
              set p = set q \<longrightarrow> set q = set r \<longrightarrow>
              reach M N p q \<or> reach M N q r \<or> reach M N p r)"

lemma can_solve_value:
  assumes "wf_board M N p" and "0 < N"
  shows "\<exists>v. can_solve M N p = Inr v"
  using assms can_solve_formula [of p M N] by (simp add: wf_board_def)

lemma swap_flips:
  assumes wf: "wf_board M N y" and N: "0 < N" and i: "Suc i < length y"
    and nb: "y ! i \<noteq> - 1" "y ! Suc i \<noteq> - 1" and v: "can_solve M N y = Inr v"
  shows "wf_board M N (swap_cells y i (Suc i))" and "set (swap_cells y i (Suc i)) = set y"
    and "can_solve M N (swap_cells y i (Suc i)) = Inr (\<not> v)"
proof -
  have len: "length y = nat (M * N)" and d: "distinct y" and bl: "- 1 \<in> set y"
    using wf by (simp_all add: wf_board_def)
  have i': "i < length y" using i by simp
  note sw = swap_cells_props [OF i' i]
  show "set (swap_cells y i (Suc i)) = set y" by (rule sw(2))
  show "wf_board M N (swap_cells y i (Suc i))"
    using sw(1,2) swap_cells_distinct [OF i' i d] len bl by (simp add: wf_board_def)
  have "y ! i \<noteq> y ! Suc i" using d i by (simp add: nth_eq_iff_index_eq)
  then show "can_solve M N (swap_cells y i (Suc i)) = Inr (\<not> v)"
    by (intro can_solve_adjacent_swap [OF len bl N i _ nb v])
qed

lemma tile_pair:
  assumes "wf_board M N y" and "2 \<le> M" and "2 \<le> N"
  shows "\<exists>i. Suc i < length y \<and> y ! i \<noteq> - 1 \<and> y ! Suc i \<noteq> - 1"
proof -
  have "2 * 2 \<le> M * N" using assms(2,3) by (intro mult_mono) simp_all
  then have "4 \<le> length y" using assms(1) by (simp add: wf_board_def)
  from first_pair [OF this] assms(1) show ?thesis unfolding wf_board_def by blast
qed

lemma connected_either:
  assumes c: "connected M N" and N: "0 < N" and wx: "wf_board M N x" and wy: "wf_board M N y"
    and st: "set x = set y" and i: "Suc i < length y"
    and nb: "y ! i \<noteq> - 1" "y ! Suc i \<noteq> - 1"
  shows "reach M N x y \<or> reach M N x (swap_cells y i (Suc i))"
proof -
  obtain v where v: "can_solve M N y = Inr v" using can_solve_value [OF wy N] by blast
  obtain w where w: "can_solve M N x = Inr w" using can_solve_value [OF wx N] by blast
  note sw = swap_flips [OF wy N i nb v]
  show ?thesis
  proof (cases "w = v")
    case True
    then have "reach M N x y" using c wx wy st v w unfolding connected_def by simp
    then show ?thesis by simp
  next
    case False
    then have "can_solve M N x = can_solve M N (swap_cells y i (Suc i))"
      using w sw(3) by auto
    then have "reach M N x (swap_cells y i (Suc i))"
      using c wx sw(1,2) st unfolding connected_def by simp
    then show ?thesis by simp
  qed
qed

lemma connected_two_classes:
  assumes c: "connected M N" and N: "0 < N"
  shows "two_classes M N"
  unfolding two_classes_def
proof (intro allI impI)
  fix p q r
  assume wf: "wf_board M N p" "wf_board M N q" "wf_board M N r"
    and st: "set p = set q" "set q = set r"
  obtain u v w where "can_solve M N p = Inr u" "can_solve M N q = Inr v"
    "can_solve M N r = Inr w"
    using can_solve_value [OF wf(1) N] can_solve_value [OF wf(2) N]
      can_solve_value [OF wf(3) N] by blast
  then have "can_solve M N p = can_solve M N q \<or> can_solve M N q = can_solve M N r
             \<or> can_solve M N p = can_solve M N r"
    by auto
  then show "reach M N p q \<or> reach M N q r \<or> reach M N p r"
    using c wf st unfolding connected_def by auto
qed

lemma two_classes_connected:
  assumes t: "two_classes M N" and M: "2 \<le> M" and N: "2 \<le> N"
  shows "connected M N"
  unfolding connected_def
proof (intro allI impI)
  fix p q
  assume wf: "wf_board M N p" "wf_board M N q" and st: "set p = set q"
    and cs: "can_solve M N p = can_solve M N q"
  have N0: "0 < N" using N by simp
  obtain i where i: "Suc i < length q" "q ! i \<noteq> - 1" "q ! Suc i \<noteq> - 1"
    using tile_pair [OF wf(2) M N] by blast
  obtain v where v: "can_solve M N q = Inr v" using can_solve_value [OF wf(2) N0] by blast
  note sw = swap_flips [OF wf(2) N0 i v]
  let ?r = "swap_cells q i (Suc i)"
  have "reach M N p q \<or> reach M N q ?r \<or> reach M N p ?r"
    using t wf sw(1,2) st unfolding two_classes_def by simp
  moreover have "\<not> reach M N q ?r"
    using reach_keeps(3) [OF wf(2) N0] sw(3) v by fastforce
  moreover have "\<not> reach M N p ?r"
    using reach_keeps(3) [OF wf(1) N0] sw(3) v cs by fastforce
  ultimately show "reach M N p q" by blast
qed

subsection \<open>From the boards with \<open>M - 1\<close> rows to the boards with \<open>M\<close> rows\<close>

lemma same_length:
  assumes "distinct a" and "distinct b" and "set a = set b"
  shows "length a = length b"
  using assms by (metis distinct_card)

lemma take_swap_cells:
  assumes "k \<le> i" and "k \<le> j"
  shows "take k (swap_cells y i j) = take k y"
  using assms by (simp add: swap_cells_def)

lemma not_in_later:
  assumes d: "distinct y" and v: "v \<in> set (take k y)" and j: "k \<le> j" "j < length y"
  shows "y ! j \<noteq> v"
proof
  assume e: "y ! j = v"
  have "drop k y ! (j - k) = y ! j" "j - k < length (drop k y)" using j by simp_all
  then have "y ! j \<in> set (drop k y)" by (metis nth_mem)
  moreover have "distinct (take k y @ drop k y)" using d by simp
  ultimately show False using v e by (simp only: distinct_append) blast
qed

lemma rows_length:
  assumes "wf_board M N p" and "1 \<le> M" and "0 < N"
  shows "length p = nat N + nat ((M - 1) * N)" and "length p = nat ((M - 1) * N) + nat N"
proof -
  have "0 \<le> (M - 1) * N" using assms(2,3) by simp
  then have "nat (M * N) = nat N + nat ((M - 1) * N)"
    using assms(3) by (simp add: nat_add_distrib [symmetric] algebra_simps)
  then show "length p = nat N + nat ((M - 1) * N)" "length p = nat ((M - 1) * N) + nat N"
    using assms(1) by (simp_all add: wf_board_def)
qed

lemma wf_below:
  assumes wf: "wf_board M N p" and M: "1 \<le> M" and N: "0 < N"
    and nb: "- 1 \<notin> set (take (nat N) p)"
  shows "wf_board (M - 1) N (drop (nat N) p)"
proof -
  have d: "distinct p" and bl: "- 1 \<in> set p" using wf by (simp_all add: wf_board_def)
  have "set p = set (take (nat N) p) \<union> set (drop (nat N) p)"
    by (metis append_take_drop_id set_append)
  then have "- 1 \<in> set (drop (nat N) p)" using bl nb by simp
  then show ?thesis
    using d rows_length(1) [OF wf M N] by (simp add: wf_board_def)
qed

lemma wf_above:
  assumes wf: "wf_board M N p" and M: "1 \<le> M" and N: "0 < N"
    and bl: "- 1 \<in> set (take (nat ((M - 1) * N)) p)"
  shows "wf_board (M - 1) N (take (nat ((M - 1) * N)) p)"
  using wf bl rows_length(2) [OF wf M N] by (simp add: wf_board_def)

lemma blank_not_first_row:
  assumes wf: "wf_board M N p" and b: "nat N \<le> blank_pos p"
  shows "- 1 \<notin> set (take (nat N) p)"
proof
  assume "- 1 \<in> set (take (nat N) p)"
  moreover have d: "distinct p" and bl: "- 1 \<in> set p" using wf by (simp_all add: wf_board_def)
  ultimately have "p ! blank_pos p \<noteq> - 1"
    using b blank_pos_less [OF bl] by (intro not_in_later [OF d])
  then show False using blank_pos_nth [OF bl] by simp
qed

lemma blank_down:
  assumes wf: "wf_board M N p" and M: "2 \<le> M" and N: "0 < N"
  shows "\<exists>p'. reach M N p p' \<and> - 1 \<notin> set (take (nat N) p')"
proof (cases "nat N \<le> blank_pos p")
  case True
  then show ?thesis using blank_not_first_row [OF wf] reach_refl by blast
next
  case False
  define b where "b = blank_pos p"
  have b: "int b < N" using False by (simp add: b_def)
  then have dv: "int b div N = 0" by simp
  have bl: "- 1 \<in> set p" using wf by (simp add: wf_board_def)
  have "int b + N < M * N" using bound_down [OF N, of "int b" M] dv M by simp
  then have k: "nat (int b + N) < length p" using wf N by (simp add: wf_board_def nat_less_eq_zless)
  define p' where "p' = swap_cells p b (nat (int b + N))"
  have ch: "change M N p CHR ''S'' = Inr p'"
    using M by (simp add: change_at [OF wf N b_def [symmetric]] dv p'_def)
  have "blank_pos p' = nat (int b + N)" and "wf_board M N p'"
    unfolding p'_def using swap_blank_wf(1,2) [OF wf b_def k] by simp_all
  then have "- 1 \<notin> set (take (nat N) p')"
    using N by (intro blank_not_first_row) simp_all
  then show ?thesis using reach_step [OF ch] by blast
qed

text \<open>Two boards with the same first row (without the blank) and the same value of the
  solvability test: the rest is a board with one row less.\<close>

lemma same_first_row:
  assumes c: "connected (M - 1) N" and M: "3 \<le> M" and N: "2 \<le> N"
    and wp: "wf_board M N p" and wq: "wf_board M N q" and st: "set p = set q"
    and cs: "can_solve M N p = can_solve M N q"
    and row: "take (nat N) p = take (nat N) q" and nb: "- 1 \<notin> set (take (nat N) q)"
  shows "reach M N p q"
proof -
  define r where "r = take (nat N) q"
  define x where "x = drop (nat N) p"
  define y where "y = drop (nat N) q"
  have N0: "0 < N" and M1: "1 \<le> M" using M N by simp_all
  have p: "p = r @ x" unfolding r_def x_def row [symmetric] by simp
  have q: "q = r @ y" unfolding r_def y_def by simp
  have lr: "length r = nat N"
    using rows_length(1) [OF wq M1 N0] by (simp add: r_def)
  have wx: "wf_board (M - 1) N x" unfolding x_def using nb row by (intro wf_below [OF wp M1 N0]) simp
  have wy: "wf_board (M - 1) N y" unfolding y_def using nb by (intro wf_below [OF wq M1 N0])
  have "distinct (r @ x)" "distinct (r @ y)" using wp wq p q by (simp_all add: wf_board_def)
  then have "set x = set (r @ x) - set r" "set y = set (r @ y) - set r" by auto
  then have sxy: "set x = set y" using st p q by simp
  obtain i where i: "Suc i < length y" "y ! i \<noteq> - 1" "y ! Suc i \<noteq> - 1"
    using tile_pair [OF wy] M N by auto
  have nbr: "- 1 \<notin> set r" using nb by (simp add: r_def)
  from connected_either [OF c N0 wx wy sxy i]
  show ?thesis
  proof
    assume "reach (M - 1) N x y"
    then show ?thesis
      unfolding p q using wp p by (intro reach_below [OF _ _ wx lr nbr N0]) simp_all
  next
    assume "reach (M - 1) N x (swap_cells y i (Suc i))"
    then have re: "reach M N p (r @ swap_cells y i (Suc i))"
      unfolding p using wp p by (intro reach_below [OF _ _ wx lr nbr N0]) simp_all
    obtain v where v: "can_solve M N q = Inr v" using can_solve_value [OF wq N0] by blast
    have i': "i < length y" using i(1) by simp
    have sw: "r @ swap_cells y i (Suc i) = swap_cells q (length r + i) (Suc (length r + i))"
      unfolding q using swap_cells_below [OF i' i(1), of r] by simp
    have "can_solve M N (swap_cells q (length r + i) (Suc (length r + i))) = Inr (\<not> v)"
      using i unfolding q by (intro swap_flips(3) [OF wq [unfolded q] N0 _ _ _ v [unfolded q]])
        (simp_all add: nth_append)
    then have "can_solve M N p = Inr (\<not> v)"
      using reach_keeps(3) [OF wp N0 re] sw by simp
    then show ?thesis using cs v by simp
  qed
qed

text \<open>With the boards of one size connected, a board reaches any rearrangement of
  its cells, up to the order of one pair of neighbouring tiles.\<close>

lemma rearrange:
  assumes c: "connected M N" and N: "0 < N" and wx: "wf_board M N x"
    and st: "set y = set x" and d: "distinct y"
    and i: "Suc i < length y" "y ! i \<noteq> - 1" "y ! Suc i \<noteq> - 1"
  obtains x' where "reach M N x x'" and "wf_board M N x'" and "set x' = set x"
    and "x' = y \<or> x' = swap_cells y i (Suc i)"
proof -
  have "length y = length x" using wx d st by (intro same_length) (simp_all add: wf_board_def)
  then have wy: "wf_board M N y" using wx d st by (simp add: wf_board_def)
  obtain v where v: "can_solve M N y = Inr v" using can_solve_value [OF wy N] by blast
  note sw = swap_flips [OF wy N i v]
  from connected_either [OF c N wx wy st [symmetric] i] show ?thesis
  proof
    assume "reach M N x y"
    then show ?thesis using wy st by (intro that [of y]) simp_all
  next
    assume "reach M N x (swap_cells y i (Suc i))"
    then show ?thesis using sw(1,2) st by (intro that [of "swap_cells y i (Suc i)"]) simp_all
  qed
qed

lemma rows_sizes:
  assumes "3 \<le> M" and "2 \<le> N"
  shows "2 \<le> nat N" and "nat N + nat N \<le> nat ((M - 1) * N)"
proof -
  show "2 \<le> nat N" using assms(2) by simp
  have "2 * N \<le> (M - 1) * N" using assms by (intro mult_right_mono) simp_all
  then show "nat N + nat N \<le> nat ((M - 1) * N)" using assms(2) by linarith
qed

lemma tile_to_first_row:
  assumes c: "connected (M - 1) N" and M: "3 \<le> M" and N: "2 \<le> N"
    and wp: "wf_board M N p" and nb: "- 1 \<notin> set (take (nat N) p)"
    and t: "t \<in> set p" "t \<noteq> - 1"
  shows "\<exists>p'. reach M N p p' \<and> - 1 \<notin> set (take (nat N) p') \<and> t \<in> set (take (nat N) p')"
proof (cases "t \<in> set (take (nat N) p)")
  case True
  then show ?thesis using nb reach_refl by blast
next
  case False
  define n where "n = nat N"
  define k where "k = nat ((M - 1) * N)"
  define r where "r = take n p"
  define x where "x = drop n p"
  have N0: "0 < N" and M1: "1 \<le> M" using M N by simp_all
  have n2: "2 \<le> n" and nk: "n + n \<le> k" using rows_sizes [OF M N] by (simp_all add: n_def k_def)
  have p: "p = r @ x" by (simp add: r_def x_def)
  have lp: "length p = n + k" "length p = k + n"
    using rows_length [OF wp M1 N0] by (simp_all add: n_def k_def)
  have lr: "length r = n" using lp by (simp add: r_def)
  have nbr: "- 1 \<notin> set r" using nb by (simp add: r_def n_def)
  have wx: "wf_board (M - 1) N x" unfolding x_def n_def by (rule wf_below [OF wp M1 N0 nb])
  have dx: "distinct x" and bx: "- 1 \<in> set x" and lx: "length x = k"
    using wx by (simp_all add: wf_board_def k_def)
  have tx: "t \<in> set x" using t(1) False unfolding p by (simp add: r_def n_def)
  define y where "y = [- 1, t] @ filter (\<lambda>z. z \<noteq> - 1 \<and> z \<noteq> t) x"
  have sy: "set y = set x" using bx tx by (auto simp: y_def)
  have dy: "distinct y" using dx t(2) by (simp add: y_def)
  have ly: "length y = k" using same_length [OF dy dx sy] lx by simp
  have "- 1 \<in> set (take 1 y)" by (simp add: y_def)
  then have yn: "y ! n \<noteq> - 1" "y ! Suc n \<noteq> - 1"
    using n2 nk ly by (intro not_in_later [OF dy, of _ 1]; simp)+
  have sn: "Suc n < length y" using n2 nk ly by simp
  obtain m where m: "n = Suc (Suc m)" using n2 by (metis add_2_eq_Suc le_Suc_ex)
  have ty: "- 1 \<in> set (take n y)" "t \<in> set (take n y)" by (simp_all add: y_def m)
  obtain x' where x': "reach (M - 1) N x x'" "wf_board (M - 1) N x'"
    "x' = y \<or> x' = swap_cells y n (Suc n)"
    using rearrange [OF c N0 wx sy dy sn yn] by blast
  have "take n x' = take n y" using x'(3) by (auto simp: take_swap_cells)
  then have tx': "- 1 \<in> set (take n x')" "t \<in> set (take n x')" using ty by simp_all
  have lx': "length x' = k" using x'(2) by (simp add: wf_board_def k_def)
  have re1: "reach M N p (r @ x')"
    unfolding p using wp p lr by (intro reach_below [OF x'(1) _ wx _ nbr N0]) (simp_all add: n_def)
  note w2 = reach_keeps(1) [OF wp N0 re1]
  define u where "u = take k (r @ x')"
  define l where "l = drop k (r @ x')"
  have ul: "r @ x' = u @ l" unfolding u_def l_def by (rule append_take_drop_id [symmetric])
  have u: "u = r @ take (k - n) x'" using nk by (simp add: u_def lr)
  have "set (take n x') \<subseteq> set (take (k - n) x')" using nk by (intro set_take_subset_set_take) simp
  then have bu: "- 1 \<in> set u" and tu: "t \<in> set u" using tx' unfolding u by auto
  have wu: "wf_board (M - 1) N u"
    unfolding u_def k_def using bu by (intro wf_above [OF w2 M1 N0]) (simp add: u_def k_def)
  have du: "distinct u" and lu: "length u = k" using wu by (simp_all add: wf_board_def k_def)
  define w where "w = [t] @ filter (\<lambda>z. z \<noteq> - 1 \<and> z \<noteq> t) u @ [- 1]"
  have sw: "set w = set u" using bu tu by (auto simp: w_def)
  have dw: "distinct w" using du t(2) by (simp add: w_def)
  have lw: "length w = k" using same_length [OF dw du sw] lu by simp
  have k4: "4 \<le> k" using n2 nk by simp
  have "w \<noteq> []" and "last w = - 1" by (simp_all add: w_def)
  then have wl: "w ! (k - 1) = - 1" using lw by (simp add: last_conv_nth)
  have w0: "w ! 0 = t" by (simp add: w_def)
  have tile: "w ! j \<noteq> - 1" if "j < k - 1" for j
    using that nth_eq_iff_index_eq [OF dw, of j "k - 1"] lw wl by auto
  have wn: "w ! 1 \<noteq> - 1" "w ! Suc 1 \<noteq> - 1" using k4 by (simp_all add: tile)
  obtain u' where u': "reach (M - 1) N u u'" "wf_board (M - 1) N u'"
    "u' = w \<or> u' = swap_cells w 1 (Suc 1)"
    using rearrange [OF c N0 wu sw dw _ wn] lw k4 by auto
  have lu': "length u' = k" using u'(2) by (simp add: wf_board_def k_def)
  have "1 < length w" "Suc 1 < length w" using lw k4 by simp_all
  note sp = swap_cells_props(5) [OF this]
  have u0: "u' ! 0 = t" using u'(3) w0 sp [of 0] by auto
  have ub: "u' ! (k - 1) = - 1" using u'(3) wl sp [of "k - 1"] k4 by auto
  have "blank_pos u' = k - 1"
    using u'(2) lu' k4 ub by (intro blank_pos_eq) (simp_all add: wf_board_def)
  moreover have "- 1 \<in> set u'" using u'(2) by (simp add: wf_board_def)
  ultimately have bp: "blank_pos (u' @ l) = k - 1" by (simp add: blank_pos_above)
  have re2: "reach M N (r @ x') (u' @ l)"
    unfolding ul using w2 ul by (intro reach_above [OF u'(1) _ wu N0]) simp
  note w3 = reach_keeps(1) [OF w2 N0 re2]
  have nb': "- 1 \<notin> set (take (nat N) (u' @ l))"
    using bp nk n2 by (intro blank_not_first_row [OF w3]) (simp add: n_def)
  have "take n (u' @ l) ! 0 = t" using u0 lu' n2 nk by (simp add: nth_append)
  moreover have "0 < length (take n (u' @ l))" using lu' n2 nk by simp
  ultimately have "t \<in> set (take n (u' @ l))" by (metis nth_mem)
  then have "t \<in> set (take (nat N) (u' @ l))" by (simp add: n_def)
  then show ?thesis using nb' reach_trans [OF re1 re2] by blast
qed

text \<open>With one of its tiles already in the first row, the other tiles of a whole row and
  the blank are gathered in the second row by moves below the first row.\<close>

lemma gather_rows:
  assumes c: "connected (M - 1) N" and M: "3 \<le> M" and N: "2 \<le> N"
    and wp: "wf_board M N p" and nb: "- 1 \<notin> set (take (nat N) p)"
    and r: "distinct r" "length r = nat N" "set r \<subseteq> set p"
    and t: "t \<in> set r" "t \<in> set (take (nat N) p)"
  shows "\<exists>p'. reach M N p p' \<and> - 1 \<in> set (take (nat ((M - 1) * N)) p') \<and>
              set r \<subseteq> set (take (nat ((M - 1) * N)) p')"
proof -
  define n where "n = nat N"
  define k where "k = nat ((M - 1) * N)"
  define a where "a = take n p"
  define x where "x = drop n p"
  have N0: "0 < N" and M1: "1 \<le> M" using M N by simp_all
  have n2: "2 \<le> n" and nk: "n + n \<le> k" using rows_sizes [OF M N] by (simp_all add: n_def k_def)
  have p: "p = a @ x" by (simp add: a_def x_def)
  have lp: "length p = n + k" "length p = k + n"
    using rows_length [OF wp M1 N0] by (simp_all add: n_def k_def)
  have la: "length a = n" using lp by (simp add: a_def)
  have nba: "- 1 \<notin> set a" using nb by (simp add: a_def n_def)
  have wx: "wf_board (M - 1) N x" unfolding x_def n_def by (rule wf_below [OF wp M1 N0 nb])
  have dx: "distinct x" and bx: "- 1 \<in> set x" and lx: "length x = k"
    using wx by (simp_all add: wf_board_def k_def)
  have "distinct (a @ x)" using wp p by (simp add: wf_board_def)
  then have tx: "t \<notin> set x" using t(2) by (auto simp: a_def n_def)
  define f where "f = filter (\<lambda>z. z = - 1 \<or> z \<in> set r) x"
  define y where "y = f @ filter (\<lambda>z. \<not> (z = - 1 \<or> z \<in> set r)) x"
  have sy: "set y = set x" by (auto simp: y_def f_def)
  have dy: "distinct y" using dx by (auto simp: y_def f_def)
  have ly: "length y = k" using same_length [OF dy dx sy] lx by simp
  have "set f \<subseteq> insert (- 1) (set r - {t})" using tx by (auto simp: f_def)
  then have "card (set f) \<le> card (insert (- 1) (set r - {t}))" by (intro card_mono) simp_all
  also have "\<dots> \<le> Suc (card (set r - {t}))" by (simp add: card_insert_if)
  also have "\<dots> = n" using t(1) r(1,2) n2 by (simp add: distinct_card n_def)
  finally have "card (set f) \<le> n" .
  moreover have "distinct f" using dx by (simp add: f_def)
  ultimately have lf: "length f \<le> n" by (simp add: distinct_card)
  have fy: "set f \<subseteq> set (take n y)" using lf by (simp add: y_def)
  have bf: "- 1 \<in> set f" using bx by (simp add: f_def)
  have yn: "y ! n \<noteq> - 1" "y ! Suc n \<noteq> - 1"
    using fy bf n2 nk ly by (intro not_in_later [OF dy, of _ n]; auto)+
  have sn: "Suc n < length y" using n2 nk ly by simp
  obtain x' where x': "reach (M - 1) N x x'" "wf_board (M - 1) N x'"
    "x' = y \<or> x' = swap_cells y n (Suc n)"
    using rearrange [OF c N0 wx sy dy sn yn] by blast
  have "take n x' = take n y" using x'(3) by (auto simp: take_swap_cells)
  then have fx': "set f \<subseteq> set (take n x')" using fy by simp
  have re: "reach M N p (a @ x')"
    unfolding p using wp p la by (intro reach_below [OF x'(1) _ wx _ nba N0]) (simp_all add: n_def)
  have u: "take k (a @ x') = a @ take (k - n) x'" using nk by (simp add: la)
  have "set (take n x') \<subseteq> set (take (k - n) x')" using nk by (intro set_take_subset_set_take) simp
  then have fu: "set f \<subseteq> set (take k (a @ x'))" using fx' unfolding u by auto
  then have bu: "- 1 \<in> set (take k (a @ x'))" using bf by blast
  have "set r \<subseteq> set (take k (a @ x'))"
  proof
    fix z assume z: "z \<in> set r"
    then have "z \<in> set a \<or> z \<in> set x" using r(3) p by auto
    then show "z \<in> set (take k (a @ x'))"
    proof
      assume "z \<in> set a" then show ?thesis unfolding u by simp
    next
      assume "z \<in> set x"
      then have "z \<in> set f" using z by (simp add: f_def)
      then show ?thesis using fu by blast
    qed
  qed
  then show ?thesis using re bu unfolding k_def by blast
qed

text \<open>The row is then arranged by moves above the last row.\<close>

lemma first_row:
  assumes c: "connected (M - 1) N" and M: "3 \<le> M" and N: "2 \<le> N"
    and room: "3 \<le> (M - 2) * N"
    and wp: "wf_board M N p" and nb: "- 1 \<notin> set (take (nat N) p)"
    and r: "distinct r" "length r = nat N" "set r \<subseteq> set p" "- 1 \<notin> set r"
    and t: "t \<in> set r" "t \<in> set (take (nat N) p)"
  shows "\<exists>p'. reach M N p p' \<and> take (nat N) p' = r"
proof -
  define n where "n = nat N"
  define k where "k = nat ((M - 1) * N)"
  have N0: "0 < N" and M1: "1 \<le> M" using M N by simp_all
  have n2: "2 \<le> n" and nk: "n + n \<le> k" using rows_sizes [OF M N] by (simp_all add: n_def k_def)
  have "(M - 1) * N = N + (M - 2) * N" by (simp add: algebra_simps)
  then have nk3: "n + 3 \<le> k" using room N0 unfolding n_def k_def by linarith
  obtain p1 where p1: "reach M N p p1" "- 1 \<in> set (take k p1)" "set r \<subseteq> set (take k p1)"
    using gather_rows [OF c M N wp nb r(1-3) t] unfolding k_def by blast
  note w1 = reach_keeps(1) [OF wp N0 p1(1)]
  define u where "u = take k p1"
  define l where "l = drop k p1"
  have ul: "p1 = u @ l" unfolding u_def l_def by simp
  have bu: "- 1 \<in> set u" and ru: "set r \<subseteq> set u" using p1(2,3) by (simp_all add: u_def)
  have wu: "wf_board (M - 1) N u"
    unfolding u_def k_def using p1(2) by (intro wf_above [OF w1 M1 N0]) (simp add: k_def)
  have du: "distinct u" and lu: "length u = k" using wu by (simp_all add: wf_board_def k_def)
  define w where "w = r @ filter (\<lambda>z. z \<noteq> - 1 \<and> z \<notin> set r) u @ [- 1]"
  have sw: "set w = set u" using bu ru by (auto simp: w_def)
  have dw: "distinct w" using du r(1,4) by (auto simp: w_def)
  have lw: "length w = k" using same_length [OF dw du sw] lu by simp
  have "w \<noteq> []" and "last w = - 1" by (simp_all add: w_def)
  then have wl: "w ! (k - 1) = - 1" using lw by (simp add: last_conv_nth)
  have tile: "w ! j \<noteq> - 1" if "j < k - 1" for j
    using that nth_eq_iff_index_eq [OF dw, of j "k - 1"] lw wl by auto
  have wn: "w ! n \<noteq> - 1" "w ! Suc n \<noteq> - 1" using nk3 by (simp_all add: tile)
  have sn': "Suc n < length w" using nk3 lw by simp
  obtain u' where u': "reach (M - 1) N u u'" "wf_board (M - 1) N u'"
    "u' = w \<or> u' = swap_cells w n (Suc n)"
    using rearrange [OF c N0 wu sw dw sn' wn] by blast
  have lu': "length u' = k" using u'(2) by (simp add: wf_board_def k_def)
  have "take n u' = take n w" using u'(3) by (auto simp: take_swap_cells)
  then have "take n u' = r" using r(2) by (simp add: w_def n_def)
  then have "take n (u' @ l) = r" using lu' nk by simp
  moreover have "reach M N p1 (u' @ l)"
    unfolding ul using w1 ul by (intro reach_above [OF u'(1) _ wu N0]) simp
  ultimately show ?thesis using reach_trans [OF p1(1)] unfolding n_def by blast
qed

text \<open>The step from \<open>M - 1\<close> rows to \<open>M\<close> rows, given that a row of tiles can be brought
  to the first row.\<close>

lemma connected_by_first_row:
  assumes c: "connected (M - 1) N" and M: "3 \<le> M" and N: "2 \<le> N"
    and row: "\<And>p r t. wf_board M N p \<Longrightarrow> - 1 \<notin> set (take (nat N) p) \<Longrightarrow> distinct r \<Longrightarrow>
      length r = nat N \<Longrightarrow> set r \<subseteq> set p \<Longrightarrow> - 1 \<notin> set r \<Longrightarrow> t \<in> set r \<Longrightarrow>
      t \<in> set (take (nat N) p) \<Longrightarrow> \<exists>p'. reach M N p p' \<and> take (nat N) p' = r"
  shows "connected M N"
  unfolding connected_def
proof (intro allI impI)
  fix p q
  assume wp: "wf_board M N p" and wq: "wf_board M N q" and st: "set p = set q"
    and cs: "can_solve M N p = can_solve M N q"
  have N0: "0 < N" and M1: "1 \<le> M" and M2: "2 \<le> M" using M N by simp_all
  obtain p1 where p1: "reach M N p p1" "- 1 \<notin> set (take (nat N) p1)"
    using blank_down [OF wp M2 N0] by blast
  obtain q1 where q1: "reach M N q q1" "- 1 \<notin> set (take (nat N) q1)"
    using blank_down [OF wq M2 N0] by blast
  note kp = reach_keeps [OF wp N0 p1(1)]
  note kq = reach_keeps [OF wq N0 q1(1)]
  define r where "r = take (nat N) q1"
  have lq: "length q1 = nat N + nat ((M - 1) * N)" using rows_length(1) [OF kq(1) M1 N0] .
  have r: "distinct r" "length r = nat N" "set r \<subseteq> set p1" "- 1 \<notin> set r"
    using kq(1) kq(2) kp(2) st q1(2) lq set_take_subset [of "nat N" q1]
    by (simp_all add: r_def wf_board_def)
  define t where "t = r ! 0"
  have t: "t \<in> set r" using r(2) N unfolding t_def by (intro nth_mem) simp
  then have tp: "t \<in> set p1" "t \<noteq> - 1" using r(3,4) by auto
  obtain p2 where p2: "reach M N p1 p2" "- 1 \<notin> set (take (nat N) p2)"
    "t \<in> set (take (nat N) p2)"
    using tile_to_first_row [OF c M N kp(1) p1(2) tp] by blast
  note k2 = reach_keeps [OF kp(1) N0 p2(1)]
  have r2: "set r \<subseteq> set p2" using r(3) k2(2) by simp
  obtain p3 where p3: "reach M N p2 p3" "take (nat N) p3 = r"
    using row [OF k2(1) p2(2) r(1,2) r2 r(4) t p2(3)] by blast
  note k3 = reach_keeps [OF k2(1) N0 p3(1)]
  have "reach M N p3 q1"
    using k3 k2 kp kq st cs p3(2) q1(2)
    by (intro same_first_row [OF c M N k3(1) kq(1)]) (simp_all add: r_def)
  then have "reach M N p q1"
    using p1(1) p2(1) p3(1) reach_trans by blast
  then show "reach M N p q" using reach_sym [OF wq N0 q1(1)] reach_trans by blast
qed

text \<open>The step when the rows strictly between the first and the last have room for two
  tiles and the blank.\<close>

lemma connected_rows:
  assumes "connected (M - 1) N" and "3 \<le> M" and "2 \<le> N" and "3 \<le> (M - 2) * N"
  shows "connected M N"
  using assms(1-3) by (rule connected_by_first_row) (rule first_row [OF assms])

subsection \<open>The boards with two rows and two columns, and with three rows and two columns\<close>

lemma turn_2x2:
  assumes "x \<noteq> - 1" and "y \<noteq> - 1" and "z \<noteq> - 1"
  shows "replay 2 2 [x, y, z, - 1] ''AWDS'' = Inr [y, z, x, - 1]"
  using assms by (simp add: change_def find_val_def swap_cells_def sdiv_nonneg smod_nonneg)

lemma exchange_3x2:
  assumes "u \<noteq> - 1" and "v \<noteq> - 1" and "g \<noteq> - 1" and "h \<noteq> - 1" and "k \<noteq> - 1"
  shows "replay 3 2 [v, u, g, - 1, h, k] ''WASSDWAWDSSAWDWAS'' = Inr [u, v, - 1, h, g, k]"
  using assms by (simp add: change_def find_val_def swap_cells_def sdiv_nonneg smod_nonneg)

lemma four_cells:
  assumes "length p = 4"
  obtains a b c d where "p = [a, b, c, d]"
  using assms by (auto simp: length_Suc_conv eval_nat_numeral)

lemma corner_2x2:
  assumes wf: "wf_board 2 2 p"
  shows "\<exists>x y z. reach 2 2 p [x, y, z, - 1]"
proof -
  have "length p = 4" and d: "distinct p" and bl: "- 1 \<in> set p"
    using wf by (simp_all add: wf_board_def)
  then obtain a b c e where p: "p = [a, b, c, e]" by (auto elim: four_cells)
  note ev = change_def find_val_def swap_cells_def sdiv_nonneg smod_nonneg
  consider "e = - 1" | "c = - 1" | "b = - 1" | "a = - 1" using bl p by auto
  then show ?thesis
  proof cases
    case 1
    then show ?thesis using p reach_refl by blast
  next
    case 2
    then have "replay 2 2 p ''D'' = Inr [a, b, e, - 1]" using d p by (auto simp: ev)
    then show ?thesis unfolding reach_def by blast
  next
    case 3
    then have "replay 2 2 p ''S'' = Inr [a, e, c, - 1]" using d p by (auto simp: ev)
    then show ?thesis unfolding reach_def by blast
  next
    case 4
    then have "replay 2 2 p ''DS'' = Inr [b, e, c, - 1]" using d p by (auto simp: ev)
    then show ?thesis unfolding reach_def by blast
  qed
qed

lemma turn_reach:
  assumes "x \<noteq> - 1" and "y \<noteq> - 1" and "z \<noteq> - 1"
  shows "reach 2 2 [x, y, z, - 1] [y, z, x, - 1]"
  unfolding reach_def using turn_2x2 [OF assms] by blast

lemma connected_2x2: "connected 2 2"
  unfolding connected_def
proof (intro allI impI)
  fix p q
  assume wp: "wf_board 2 2 p" and wq: "wf_board 2 2 q" and st: "set p = set q"
    and cs: "can_solve 2 2 p = can_solve 2 2 q"
  have N0: "(0::int) < 2" by simp
  obtain x y z where P: "reach 2 2 p [x, y, z, - 1]" using corner_2x2 [OF wp] by blast
  obtain x' y' z' where Q: "reach 2 2 q [x', y', z', - 1]" using corner_2x2 [OF wq] by blast
  note kp = reach_keeps [OF wp N0 P]
  note kq = reach_keeps [OF wq N0 Q]
  have dp: "distinct [x, y, z, - 1]" and dq: "distinct [x', y', z', - 1]"
    using kp(1) kq(1) by (simp_all add: wf_board_def)
  have tiles: "x \<noteq> - 1" "y \<noteq> - 1" "z \<noteq> - 1" "x \<noteq> y" "x \<noteq> z" "y \<noteq> z"
    using dp by auto
  have "set [x', y', z', - 1] = set [x, y, z, - 1]" using kp(2) kq(2) st by simp
  then have mem: "x' \<in> {x, y, z}" "y' \<in> {x, y, z}" "z' \<in> {x, y, z}" using dq by auto
  obtain v where v: "can_solve 2 2 [x, y, z, - 1] = Inr v"
    using can_solve_value [OF kp(1) N0] by blast
  have csq: "can_solve 2 2 [x', y', z', - 1] = Inr v" using kp(3) kq(3) cs v by simp
  have sw: "swap_cells [x, y, z, - 1] 0 (Suc 0) = [y, x, z, - 1]" by (simp add: swap_cells_def)
  have odd_v: "can_solve 2 2 [y, x, z, - 1] = Inr (\<not> v)"
    using swap_flips(3) [OF kp(1) N0 _ _ _ v, of 0] tiles sw by simp
  have wo: "wf_board 2 2 [y, x, z, - 1]"
    using swap_flips(1) [OF kp(1) N0 _ _ _ v, of 0] tiles sw by simp
  have no: "\<not> reach 2 2 [y, x, z, - 1] [x', y', z', - 1]"
    using reach_keeps(3) [OF wo N0] odd_v csq by fastforce
  have t1: "reach 2 2 [x, y, z, - 1] [y, z, x, - 1]" using tiles by (intro turn_reach)
  have t2: "reach 2 2 [y, z, x, - 1] [z, x, y, - 1]" using tiles by (intro turn_reach)
  have o1: "reach 2 2 [y, x, z, - 1] [x, z, y, - 1]" using tiles by (intro turn_reach)
  have o2: "reach 2 2 [x, z, y, - 1] [z, y, x, - 1]" using tiles by (intro turn_reach)
  consider "[x', y', z'] = [x, y, z]" | "[x', y', z'] = [y, z, x]" | "[x', y', z'] = [z, x, y]"
    | "[x', y', z'] = [y, x, z]" | "[x', y', z'] = [x, z, y]" | "[x', y', z'] = [z, y, x]"
    using mem dq by auto
  then have "reach 2 2 [x, y, z, - 1] [x', y', z', - 1]"
  proof cases
    case 1 then show ?thesis by (simp add: reach_refl)
  next
    case 2 then show ?thesis using t1 by simp
  next
    case 3 then show ?thesis using reach_trans [OF t1 t2] by simp
  next
    case 4 then show ?thesis using no reach_refl by simp
  next
    case 5 then show ?thesis using no o1 by simp
  next
    case 6 then show ?thesis using no reach_trans [OF o1 o2] by simp
  qed
  then have "reach 2 2 p [x', y', z', - 1]" using P reach_trans by blast
  then show "reach 2 2 p q" using reach_sym [OF wq N0 Q] reach_trans by blast
qed

text \<open>Three rows and two columns: the two rows above the last have no room to spare, and
  the two tiles of the first row may come out in the wrong order.  A fixed sequence of 17
  moves exchanges them.\<close>

lemma first_row_3x2:
  assumes c: "connected 2 2"
    and wp: "wf_board 3 2 p" and nb: "- 1 \<notin> set (take (nat 2) p)"
    and r: "distinct r" "length r = nat 2" "set r \<subseteq> set p" "- 1 \<notin> set r"
    and t: "t \<in> set r" "t \<in> set (take (nat 2) p)"
  shows "\<exists>p'. reach 3 2 p p' \<and> take (nat 2) p' = r"
proof -
  have c': "connected (3 - 1) 2" using c by simp
  have N0: "(0::int) < 2" and M1: "(1::int) \<le> 3" by simp_all
  obtain p1 where p1: "reach 3 2 p p1" "- 1 \<in> set (take 4 p1)" "set r \<subseteq> set (take 4 p1)"
    using gather_rows [OF c' _ _ wp nb r(1-3) t] by auto
  note w1 = reach_keeps(1) [OF wp N0 p1(1)]
  define u where "u = take 4 p1"
  define l where "l = drop 4 p1"
  have ul: "p1 = u @ l" unfolding u_def l_def by simp
  have bu: "- 1 \<in> set u" and ru: "set r \<subseteq> set u" using p1(2,3) by (simp_all add: u_def)
  have wu: "wf_board (3 - 1) 2 u"
    using wf_above [OF w1 M1 N0] p1(2) by (simp add: u_def)
  have du: "distinct u" and lu: "length u = 4" using wu by (simp_all add: wf_board_def)
  have lp1: "length p1 = 6" using w1 by (simp add: wf_board_def)
  then have "length l = 2" by (simp add: l_def)
  then obtain h k where l: "l = [h, k]" by (auto simp: length_Suc_conv eval_nat_numeral)
  have "distinct (u @ l)" using w1 ul by (simp add: wf_board_def)
  then have hk: "h \<noteq> - 1" "k \<noteq> - 1" using bu l by auto
  obtain a b where ab: "r = [a, b]" using r(2) by (auto simp: length_Suc_conv eval_nat_numeral)
  have tiles: "a \<noteq> - 1" "b \<noteq> - 1" using r(4) ab by auto
  define f where "f = filter (\<lambda>z. z \<noteq> - 1 \<and> z \<notin> set r) u"
  define w where "w = r @ f @ [- 1]"
  have sw: "set w = set u" using bu ru by (auto simp: w_def f_def)
  have dw: "distinct w" using du r(1,4) by (auto simp: w_def f_def)
  have lw: "length w = 4" using same_length [OF dw du sw] lu by simp
  then have "length f = 1" using r(2) by (simp add: w_def)
  then obtain g where g: "f = [g]" by (auto simp: length_Suc_conv)
  have "g \<in> set f" using g by simp
  then have g1: "g \<noteq> - 1" by (simp add: f_def)
  have w: "w = [a, b, g, - 1]" by (simp add: w_def ab g)
  obtain u' where u': "reach (3 - 1) 2 u u'" "wf_board (3 - 1) 2 u'"
    "u' = w \<or> u' = swap_cells w 0 (Suc 0)"
    using rearrange [OF c' N0 wu sw dw, of 0] tiles w by auto
  have re: "reach 3 2 p1 (u' @ l)"
    unfolding ul using w1 ul by (intro reach_above [OF u'(1) _ wu N0]) simp
  from u'(3) show ?thesis
  proof
    assume "u' = w"
    then have "take (nat 2) (u' @ l) = r" by (simp add: w ab)
    then show ?thesis using reach_trans [OF p1(1) re] by blast
  next
    assume "u' = swap_cells w 0 (Suc 0)"
    then have "u' @ l = [b, a, g, - 1, h, k]" by (simp add: w l swap_cells_def)
    moreover have "reach 3 2 [b, a, g, - 1, h, k] [a, b, - 1, h, g, k]"
      unfolding reach_def using exchange_3x2 [OF tiles g1 hk] by blast
    ultimately have "reach 3 2 p1 [a, b, - 1, h, g, k]" using re reach_trans by simp
    then have "reach 3 2 p [a, b, - 1, h, g, k]" using p1(1) reach_trans by blast
    moreover have "take (nat 2) [a, b, - 1, h, g, k] = r" by (simp add: ab eval_nat_numeral)
    ultimately show ?thesis by blast
  qed
qed

lemma connected_3x2: "connected 3 2"
proof (rule connected_by_first_row)
  show "connected (3 - 1) 2" using connected_2x2 by simp
  show "(3::int) \<le> 3" and "(2::int) \<le> 2" by simp_all
  show "\<exists>p'. reach 3 2 p p' \<and> take (nat 2) p' = r"
    if "wf_board 3 2 p" "- 1 \<notin> set (take (nat 2) p)" "distinct r" "length r = nat 2"
      "set r \<subseteq> set p" "- 1 \<notin> set r" "t \<in> set r" "t \<in> set (take (nat 2) p)" for p r t
    using that by (rule first_row_3x2 [OF connected_2x2])
qed

subsection \<open>Rows and columns exchanged\<close>

text \<open>The cell of an \<open>a\<close>-column board that corresponds to cell \<open>k\<close> of the \<open>b\<close>-column
  board with rows and columns exchanged.\<close>

definition tr_idx :: "nat \<Rightarrow> nat \<Rightarrow> nat \<Rightarrow> nat" where
  "tr_idx a b k = (k mod a) * b + k div a"

definition transpose_board :: "int \<Rightarrow> int \<Rightarrow> board \<Rightarrow> board" where
  "transpose_board M N p = map (\<lambda>k. p ! tr_idx (nat M) (nat N) k) [0 ..< nat M * nat N]"

definition turn_move :: "char \<Rightarrow> char" where
  "turn_move c = (if c = CHR ''W'' then CHR ''A'' else if c = CHR ''A'' then CHR ''W''
                  else if c = CHR ''S'' then CHR ''D'' else if c = CHR ''D'' then CHR ''S''
                  else c)"

lemma tr_idx_less:
  assumes "k < a * b"
  shows "tr_idx a b k < a * b"
proof -
  have a: "0 < a" using assms by (cases a) simp_all
  have "k div a < b" using assms a by (simp add: less_mult_imp_div_less mult.commute)
  moreover have "k mod a \<le> a - 1" using mod_less_divisor [OF a, of k] by linarith
  then have "(k mod a) * b \<le> (a - 1) * b" by (intro mult_right_mono) simp_all
  ultimately have "tr_idx a b k < (a - 1) * b + b" unfolding tr_idx_def by linarith
  also have "\<dots> = a * b" using a by (simp add: algebra_simps mult_eq_if)
  finally show ?thesis .
qed

lemma tr_idx_parts:
  assumes "k < a * b"
  shows "tr_idx a b k mod b = k div a" and "tr_idx a b k div b = k mod a"
proof -
  have a: "0 < a" using assms by (cases a) simp_all
  have d: "k div a < b" using assms a by (simp add: less_mult_imp_div_less mult.commute)
  show "tr_idx a b k mod b = k div a" unfolding tr_idx_def using d by simp
  show "tr_idx a b k div b = k mod a" unfolding tr_idx_def using d by simp
qed

lemma tr_idx_twice:
  assumes "k < a * b"
  shows "tr_idx b a (tr_idx a b k) = k"
  unfolding tr_idx_def [of b a] tr_idx_parts [OF assms] by simp

lemma tr_idx_eq:
  assumes "k < a * b" and "i < a * b"
  shows "tr_idx a b k = i \<longleftrightarrow> k = tr_idx b a i"
proof
  assume "tr_idx a b k = i"
  then show "k = tr_idx b a i" using tr_idx_twice [OF assms(1)] by simp
next
  have i: "i < b * a" using assms(2) by (simp add: mult.commute)
  assume "k = tr_idx b a i"
  then show "tr_idx a b k = i" using tr_idx_twice [OF i] by simp
qed

lemma board_size_nat:
  assumes "0 < M" and "0 < N"
  shows "nat (M * N) = nat M * nat N"
  using assms by (simp add: nat_mult_distrib)

lemma transpose_props:
  assumes wf: "wf_board M N p" and M: "0 < M" and N: "0 < N"
  shows "length (transpose_board M N p) = nat M * nat N"
    and "\<And>k. k < nat M * nat N \<Longrightarrow> transpose_board M N p ! k = p ! tr_idx (nat M) (nat N) k"
    and "\<And>i. i < nat M * nat N \<Longrightarrow> transpose_board M N p ! tr_idx (nat N) (nat M) i = p ! i"
    and "set (transpose_board M N p) = set p"
    and "wf_board N M (transpose_board M N p)"
proof -
  let ?t = "transpose_board M N p"
  let ?m = "nat M" and ?n = "nat N"
  have lp: "length p = ?m * ?n" and d: "distinct p" and bl: "- 1 \<in> set p"
    using wf board_size_nat [OF M N] by (simp_all add: wf_board_def)
  show l: "length ?t = ?m * ?n" by (simp add: transpose_board_def)
  show nth: "?t ! k = p ! tr_idx ?m ?n k" if "k < ?m * ?n" for k
    using that by (simp add: transpose_board_def)
  show rev: "?t ! tr_idx ?n ?m i = p ! i" if "i < ?m * ?n" for i
  proof -
    have i: "i < ?n * ?m" using that by (simp add: mult.commute)
    have "tr_idx ?n ?m i < ?m * ?n" using tr_idx_less [OF i] by (simp add: mult.commute)
    then show ?thesis using nth tr_idx_twice [OF i] by simp
  qed
  show st: "set ?t = set p"
  proof
    show "set ?t \<subseteq> set p"
      using tr_idx_less lp by (auto simp: transpose_board_def)
    show "set p \<subseteq> set ?t"
    proof
      fix x assume "x \<in> set p"
      then obtain i where i: "i < ?m * ?n" "p ! i = x" using lp by (auto simp: in_set_conv_nth)
      have "tr_idx ?n ?m i < length ?t"
        using tr_idx_less [of i ?n ?m] i(1) l by (simp add: mult.commute)
      then have "?t ! tr_idx ?n ?m i \<in> set ?t" by (rule nth_mem)
      then show "x \<in> set ?t" using rev [OF i(1)] i(2) by simp
    qed
  qed
  have "distinct ?t" using d l lp st by (metis card_distinct distinct_card)
  moreover have "nat (N * M) = ?m * ?n" using board_size_nat [OF N M] by (simp add: mult.commute)
  ultimately show "wf_board N M ?t" using l st bl by (simp add: wf_board_def)
qed

lemma transpose_blank:
  assumes wf: "wf_board M N p" and M: "0 < M" and N: "0 < N"
  shows "blank_pos (transpose_board M N p) = tr_idx (nat N) (nat M) (blank_pos p)"
proof -
  note tp = transpose_props [OF wf M N]
  have bl: "- 1 \<in> set p" and lp: "length p = nat M * nat N"
    using wf board_size_nat [OF M N] by (simp_all add: wf_board_def)
  have b: "blank_pos p < nat M * nat N" using blank_pos_less [OF bl] lp by simp
  then have b': "blank_pos p < nat N * nat M" by (simp add: mult.commute)
  have "distinct (transpose_board M N p)" using tp(5) by (simp add: wf_board_def)
  moreover have "tr_idx (nat N) (nat M) (blank_pos p) < length (transpose_board M N p)"
    using tr_idx_less [OF b'] tp(1) by (simp add: mult.commute)
  moreover have "transpose_board M N p ! tr_idx (nat N) (nat M) (blank_pos p) = - 1"
    using tp(3) [OF b] blank_pos_nth [OF bl] by simp
  ultimately show ?thesis by (rule blank_pos_eq)
qed

lemma transpose_swap:
  assumes wf: "wf_board M N p" and M: "0 < M" and N: "0 < N"
    and i: "i < nat M * nat N" and j: "j < nat M * nat N"
  shows "transpose_board M N (swap_cells p i j)
         = swap_cells (transpose_board M N p) (tr_idx (nat N) (nat M) i) (tr_idx (nat N) (nat M) j)"
proof (rule nth_equalityI)
  note tp = transpose_props [OF wf M N]
  have lp: "length p = nat M * nat N"
    using wf board_size_nat [OF M N] by (simp add: wf_board_def)
  show "length (transpose_board M N (swap_cells p i j))
        = length (swap_cells (transpose_board M N p) (tr_idx (nat N) (nat M) i)
            (tr_idx (nat N) (nat M) j))"
    using tp(1) by (simp add: transpose_board_def swap_cells_def)
  fix k assume "k < length (transpose_board M N (swap_cells p i j))"
  then have k: "k < nat M * nat N" by (simp add: transpose_board_def)
  have sk: "tr_idx (nat M) (nat N) k < nat M * nat N" by (rule tr_idx_less [OF k])
  have i': "i < nat N * nat M" and j': "j < nat N * nat M" using i j by (simp_all add: mult.commute)
  have ti: "tr_idx (nat N) (nat M) i < nat M * nat N" "tr_idx (nat N) (nat M) j < nat M * nat N"
    using tr_idx_less [OF i'] tr_idx_less [OF j'] by (simp_all add: mult.commute)
  have e: "tr_idx (nat M) (nat N) k = i \<longleftrightarrow> k = tr_idx (nat N) (nat M) i"
    "tr_idx (nat M) (nat N) k = j \<longleftrightarrow> k = tr_idx (nat N) (nat M) j"
    using tr_idx_eq [OF k i] tr_idx_eq [OF k j] by simp_all
  define t where "t = transpose_board M N p"
  define a c where "a = tr_idx (nat N) (nat M) i" and "c = tr_idx (nat N) (nat M) j"
  define x where "x = tr_idx (nat M) (nat N) k"
  have lt: "length t = nat M * nat N" using tp(1) by (simp add: t_def)
  have ac: "a < length t" "c < length t" using ti lt by (simp_all add: a_def c_def)
  have ta: "t ! a = p ! i" and tc: "t ! c = p ! j" and tk: "t ! k = p ! x"
    using tp(3) [OF i] tp(3) [OF j] tp(2) [OF k] by (simp_all add: t_def a_def c_def x_def)
  have e': "x = i \<longleftrightarrow> k = a" "x = j \<longleftrightarrow> k = c" using e by (simp_all add: x_def a_def c_def)
  have x: "x < length p" using sk lp by (simp add: x_def)
  have "transpose_board M N (swap_cells p i j) ! k = swap_cells p i j ! x"
    using k by (simp add: transpose_board_def x_def)
  also have "\<dots> = (if x = j then p ! i else if x = i then p ! j else p ! x)"
    using x i j lp by (simp add: swap_cells_def nth_list_update)
  also have "\<dots> = (if k = c then t ! a else if k = a then t ! c else t ! k)"
    by (simp add: e' ta tc tk)
  also have "\<dots> = swap_cells t a c ! k"
    using ac k lt by (simp add: swap_cells_def nth_list_update)
  finally show "transpose_board M N (swap_cells p i j) ! k
        = swap_cells (transpose_board M N p) (tr_idx (nat N) (nat M) i)
            (tr_idx (nat N) (nat M) j) ! k"
    by (simp add: t_def a_def c_def)
qed

lemma tr_idx_steps:
  assumes n: "0 < n"
  shows "tr_idx n m (b + n) = tr_idx n m b + 1"
    and "n \<le> b \<Longrightarrow> tr_idx n m (b - n) + 1 = tr_idx n m b"
    and "b mod n < n - 1 \<Longrightarrow> tr_idx n m (b + 1) = tr_idx n m b + m"
    and "0 < b mod n \<Longrightarrow> tr_idx n m (b - 1) + m = tr_idx n m b"
proof -
  show 1: "tr_idx n m (b + n) = tr_idx n m b + 1" for b
    using n by (simp add: tr_idx_def div_add_self2)
  show "tr_idx n m (b - n) + 1 = tr_idx n m b" if "n \<le> b"
    using 1 [of "b - n"] that by simp
  show 3: "tr_idx n m (b + 1) = tr_idx n m b + m" if "b mod n < n - 1" for b
  proof -
    have "Suc b mod n = Suc (b mod n)" using that by (simp add: mod_Suc)
    moreover have "Suc b div n = b div n" using that by (simp add: div_Suc mod_Suc)
    ultimately show ?thesis by (simp add: tr_idx_def)
  qed
  show "tr_idx n m (b - 1) + m = tr_idx n m b" if "0 < b mod n"
  proof -
    have b: "0 < b" using that by (cases b) simp_all
    have "(b - 1) mod n < n - 1"
    proof -
      have "Suc ((b - 1) mod n) \<noteq> n"
        using that b mod_Suc [of "b - 1" n] by auto
      moreover have "(b - 1) mod n < n" using n by simp
      ultimately show ?thesis by linarith
    qed
    from 3 [OF this] b show ?thesis by simp
  qed
qed

text \<open>A legal move on a board is a legal move on the board with rows and columns
  exchanged: up becomes left, down becomes right, and the other way round.\<close>

lemma change_transpose:
  assumes wf: "wf_board M N p" and M: "0 < M" and N: "0 < N"
    and ch: "change M N p c = Inr q"
  shows "change N M (transpose_board M N p) (turn_move c) = Inr (transpose_board M N q)"
proof -
  define m n b where "m = nat M" and "n = nat N" and "b = blank_pos p"
  define b' where "b' = tr_idx n m b"
  have Mm: "M = int m" and Nn: "N = int n" using M N by (simp_all add: m_def n_def)
  have m0: "0 < m" and n0: "0 < n" using M N by (simp_all add: m_def n_def)
  note tp = transpose_props [OF wf M N]
  have bl: "- 1 \<in> set p" and lp: "length p = m * n"
    using wf board_size_nat [OF M N] by (simp_all add: wf_board_def m_def n_def)
  have b: "b < m * n" using blank_pos_less [OF bl] lp by (simp add: b_def)
  then have bn: "b < n * m" by (simp add: mult.commute)
  have bpos: "blank_pos (transpose_board M N p) = b'"
    using transpose_blank [OF wf M N] by (simp add: b'_def b_def m_def n_def)
  note whole = change_at [OF tp(5) M bpos]
  have parts: "int b' mod M = int (b div n)" "int b' div M = int (b mod n)"
    unfolding Mm zmod_int [symmetric] zdiv_int [symmetric] b'_def tr_idx_parts [OF bn]
    by (rule refl)+
  have dm: "int b div N = int (b div n)" "int b mod N = int (b mod n)"
    unfolding Nn zmod_int [symmetric] zdiv_int [symmetric] by (rule refl)+
  have sw: "transpose_board M N (swap_cells p b k) = swap_cells (transpose_board M N p) b' (tr_idx n m k)"
    if "k < m * n" for k
    using transpose_swap [OF wf M N, of b k] b that by (simp add: m_def n_def b'_def)
  from wf N ch show ?thesis
  proof (cases rule: change_cases)
    case W
    note W2 = W(2) [folded b_def, unfolded dm]
    have ge: "n \<le> b" using W(2) bound_up [OF N, of "int b"] by (simp add: b_def Nn)
    have k: "b - n < m * n" using b by simp
    have q: "q = swap_cells p b (b - n)" using W(3) ge by (simp add: b_def Nn nat_diff_distrib')
    have "tr_idx n m (b - n) + 1 = b'" unfolding b'_def by (rule tr_idx_steps(2) [OF n0 ge])
    then have "nat (int b' - 1) = tr_idx n m (b - n)" by linarith
    moreover have "0 < int b' mod M" using W2 by (simp add: parts)
    ultimately show ?thesis unfolding whole q sw [OF k] using W(1) by (simp add: turn_move_def)
  next
    case S
    from bound_down [OF N S(2) [folded b_def]] have "int (b + n) < int (m * n)"
      by (simp add: Mm Nn)
    then have k: "b + n < m * n" by (simp only: of_nat_less_iff)
    have q: "q = swap_cells p b (b + n)" using S(3) by (simp add: b_def Nn nat_add_distrib)
    have "tr_idx n m (b + n) = b' + 1" unfolding b'_def by (rule tr_idx_steps(1) [OF n0])
    then have "nat (int b' + 1) = tr_idx n m (b + n)" by linarith
    moreover have "int b' mod M < M - 1" using S(2) [folded b_def, unfolded dm] by (simp add: parts)
    ultimately show ?thesis unfolding whole q sw [OF k] using S(1) by (simp add: turn_move_def)
  next
    case A
    have md: "0 < b mod n" using A(2) [folded b_def, unfolded dm] by simp
    have k: "b - 1 < m * n" using b by simp
    have q: "q = swap_cells p b (b - 1)" using A(3) by (simp add: b_def nat_diff_distrib')
    have "tr_idx n m (b - 1) + m = b'" unfolding b'_def by (rule tr_idx_steps(4) [OF n0 md])
    then have "nat (int b' - M) = tr_idx n m (b - 1)" unfolding Mm by linarith
    moreover have "0 < int b' div M" using md by (simp add: parts)
    ultimately show ?thesis unfolding whole q sw [OF k] using A(1) by (simp add: turn_move_def)
  next
    case D
    note D2 = D(2) [folded b_def, unfolded dm]
    have md: "b mod n < n - 1" using D2 n0 unfolding Nn by linarith
    have "int b < M * N" using b unfolding Mm Nn by (metis of_nat_less_iff of_nat_mult)
    from bound_right [OF N this D(2) [folded b_def]] have "int (b + 1) < int (m * n)"
      by (simp add: Mm Nn)
    then have k: "b + 1 < m * n" by (simp only: of_nat_less_iff)
    have q: "q = swap_cells p b (b + 1)" using D(3) by (simp add: b_def nat_add_distrib)
    have "tr_idx n m (b + 1) = b' + m" unfolding b'_def by (rule tr_idx_steps(3) [OF n0 md])
    then have "nat (int b' + M) = tr_idx n m (b + 1)" unfolding Mm by linarith
    moreover have "int b' div M < N - 1" using md n0 by (simp add: parts Nn)
    ultimately show ?thesis unfolding whole q sw [OF k] using D(1) by (simp add: turn_move_def)
  qed
qed

lemma replay_transpose:
  assumes "replay M N p cs = Inr q" and "wf_board M N p" and M: "0 < M" and N: "0 < N"
  shows "replay N M (transpose_board M N p) (map turn_move cs) = Inr (transpose_board M N q)"
  using assms(1,2)
proof (induction cs arbitrary: p)
  case Nil
  then show ?case by simp
next
  case (Cons c cs)
  then obtain p' where p': "change M N p c = Inr p'" "replay M N p' cs = Inr q"
    by (auto split: sum.splits)
  have "wf_board M N p'" using change_keeps(1) [OF Cons.prems(2) N p'(1)] .
  from Cons.IH [OF p'(2) this] change_transpose [OF Cons.prems(2) M N p'(1)]
  show ?case by simp
qed

lemma reach_transpose:
  assumes "reach M N p q" and "wf_board M N p" and "0 < M" and "0 < N"
  shows "reach N M (transpose_board M N p) (transpose_board M N q)"
  using assms replay_transpose unfolding reach_def by blast

lemma transpose_twice:
  assumes wf: "wf_board M N p" and M: "0 < M" and N: "0 < N"
  shows "transpose_board N M (transpose_board M N p) = p"
proof (rule nth_equalityI)
  note tp = transpose_props [OF wf M N]
  note tt = transpose_props [OF tp(5) N M]
  have lp: "length p = nat M * nat N"
    using wf board_size_nat [OF M N] by (simp add: wf_board_def)
  show "length (transpose_board N M (transpose_board M N p)) = length p"
    using tt(1) lp by (simp add: mult.commute)
  fix i assume "i < length (transpose_board N M (transpose_board M N p))"
  then have i: "i < nat N * nat M" "i < nat M * nat N" using tt(1) by (simp_all add: mult.commute)
  show "transpose_board N M (transpose_board M N p) ! i = p ! i"
    using tt(2) [OF i(1)] tp(3) [OF i(2)] by simp
qed

lemma two_classes_transpose:
  assumes t: "two_classes N M" and M: "0 < M" and N: "0 < N"
  shows "two_classes M N"
  unfolding two_classes_def
proof (intro allI impI)
  fix p q r
  assume wf: "wf_board M N p" "wf_board M N q" "wf_board M N r"
    and st: "set p = set q" "set q = set r"
  note tp = transpose_props(4,5) [OF wf(1) M N]
  note tq = transpose_props(4,5) [OF wf(2) M N]
  note tr = transpose_props(4,5) [OF wf(3) M N]
  have turn: "reach M N x y"
    if "reach N M (transpose_board M N x) (transpose_board M N y)"
      and "wf_board M N x" and "wf_board M N y" for x y
    using reach_transpose [OF that(1) transpose_props(5) [OF that(2) M N] N M]
      transpose_twice [OF that(2) M N] transpose_twice [OF that(3) M N] by simp
  have "reach N M (transpose_board M N p) (transpose_board M N q)
        \<or> reach N M (transpose_board M N q) (transpose_board M N r)
        \<or> reach N M (transpose_board M N p) (transpose_board M N r)"
    using t tp tq tr st unfolding two_classes_def by simp
  then show "reach M N p q \<or> reach M N q r \<or> reach M N p r"
    using turn wf by blast
qed

subsection \<open>All boards with at least two rows and two columns\<close>

lemma connected_two_columns: "2 \<le> M \<Longrightarrow> connected M 2"
proof (induction M rule: int_ge_induct)
  case base
  show ?case by (rule connected_2x2)
next
  case (step i)
  show ?case
  proof (cases "i = 2")
    case True
    then show ?thesis using connected_3x2 by simp
  next
    case False
    then have "3 \<le> i" using step.hyps by simp
    then show ?thesis using step.IH by (intro connected_rows [of "i + 1" 2]) simp_all
  qed
qed

lemma connected_two_rows:
  assumes "2 \<le> N"
  shows "connected 2 N"
proof -
  have "two_classes N 2"
    using connected_two_columns [OF assms] by (rule connected_two_classes) simp
  then have "two_classes 2 N" using assms by (intro two_classes_transpose [of N 2]) simp_all
  then show ?thesis using assms by (intro two_classes_connected [of 2 N]) simp_all
qed

lemma connected_all:
  assumes "2 \<le> M" and "2 \<le> N"
  shows "connected M N"
proof (cases "N = 2")
  case True
  then show ?thesis using connected_two_columns [OF assms(1)] by simp
next
  case False
  then have N: "3 \<le> N" using assms(2) by simp
  from assms(1) show ?thesis
  proof (induction M rule: int_ge_induct)
    case base
    show ?case by (rule connected_two_rows [OF assms(2)])
  next
    case (step i)
    have "1 * 3 \<le> (i + 1 - 2) * N" using step.hyps N by (intro mult_mono) simp_all
    then show ?case
      using step.IH step.hyps assms(2) by (intro connected_rows [of "i + 1" N]) simp_all
  qed
qed

text \<open>
  Claim C3.  On every board with at least two rows and two columns that satisfies the
  permutation invariant, \<open>can_solve\<close> returns true exactly if the board is reached from
  the solved board by a finite sequence of legal moves of the blank, and that is the case
  exactly if the solved board is reached from it.
\<close>

theorem can_solve_iff_reachable:
  assumes M: "2 \<le> M" and N: "2 \<le> N" and pi: "perm_invariant M N p"
  shows "(can_solve M N p = Inr True \<longleftrightarrow> (\<exists>cs. replay M N (solved_board M N) cs = Inr p)) \<and>
         ((\<exists>cs. replay M N (solved_board M N) cs = Inr p)
            \<longleftrightarrow> (\<exists>cs. replay M N p cs = Inr (solved_board M N)))"
proof -
  have N0: "0 < N" and M1: "1 \<le> M" and N1: "1 \<le> N" using M N by simp_all
  have "1 * 1 \<le> M * N" using M N by (intro mult_mono) simp_all
  then have MN: "1 \<le> M * N" by simp
  note ps = solved_board_perm [OF MN]
  note wp = perm_invariant_wf [OF pi]
  note ws = perm_invariant_wf [OF ps]
  have st: "set (solved_board M N) = set p" using pi ps by (simp add: perm_invariant_def)
  note cs = solved_board_can_solve [OF M1 N1]
  have a: "reach M N (solved_board M N) p" if "can_solve M N p = Inr True"
    using connected_all [OF M N] ws wp st cs that unfolding connected_def by simp
  have b: "can_solve M N p = Inr True" if "reach M N (solved_board M N) p"
    using reach_keeps(3) [OF ws N0 that] cs by simp
  have c: "reach M N (solved_board M N) p \<longleftrightarrow> reach M N p (solved_board M N)"
    using reach_sym [OF ws N0] reach_sym [OF wp N0] by blast
  show ?thesis using a b c unfolding reach_def by blast
qed

theorem can_solve_iff_reachable_witness:
  "(2::int) \<le> 2 \<and> (2::int) \<le> 3 \<and> perm_invariant 2 3 [2, 4, - 1, 1, 5, 3] \<and>
   can_solve 2 3 [2, 4, - 1, 1, 5, 3] = Inr True \<and>
   (\<exists>cs. replay 2 3 (solved_board 2 3) cs = Inr [2, 4, - 1, 1, 5, 3]) \<and>
   perm_invariant 2 3 [2, 1, 3, 4, 5, - 1] \<and>
   can_solve 2 3 [2, 1, 3, 4, 5, - 1] = Inr False \<and>
   \<not> (\<exists>cs. replay 2 3 (solved_board 2 3) cs = Inr [2, 1, 3, 4, 5, - 1])"
proof -
  have p1: "perm_invariant 2 3 [2, 4, - 1, 1, 5, 3]"
    by (auto simp: perm_invariant_def upto.simps)
  have p2: "perm_invariant 2 3 [2, 1, 3, 4, 5, - 1]"
    by (auto simp: perm_invariant_def upto.simps)
  have c1: "can_solve 2 3 [2, 4, - 1, 1, 5, 3] = Inr True" by code_simp
  have c2: "can_solve 2 3 [2, 1, 3, 4, 5, - 1] = Inr False" by code_simp
  show ?thesis
    using can_solve_iff_reachable [OF _ _ p1] can_solve_iff_reachable [OF _ _ p2] p1 p2 c1 c2
    by simp
qed

end
